theory Spec2Isabelle
  imports Complex_Main "HOL-Library.Finite_Map" "HOL-Library.Word"
begin

section \<open>Data model of \<^verbatim>\<open>v2/document.go\<close>\<close>

text \<open>
  Go's \<^verbatim>\<open>int\<close> (and \<^verbatim>\<open>tokenID\<close>, which is an \<^verbatim>\<open>int\<close>) is modelled as \<^typ>\<open>int\<close>: the only
  arithmetic on it is \<^verbatim>\<open>len(d.Words) + 1\<close>, and a map never holds \<open>2\<^sup>6\<^sup>3\<close> entries.
  A Go \<^verbatim>\<open>string\<close> is a \<^typ>\<open>string\<close>, a Go \<^verbatim>\<open>map\<close> is a finite map, a pointer that may be
  \<^verbatim>\<open>nil\<close> is an \<^typ>\<open>'a option\<close>.
\<close>

type_synonym tokenID = int

type_synonym byte = "8 word"

type_synonym rune = "32 word"

record token =
  Text :: string
  Index :: int
  Line :: int
  Previous :: string

record document =
  Tokens :: "token list"

record indexedToken =
  Index :: int
  Line :: int
  ID :: tokenID

record Dictionary =
  Words :: "(tokenID, string) fmap"
  Indices :: "(string, tokenID) fmap"

text \<open>
  \<^verbatim>\<open>FrequencyTable\<close> and \<^verbatim>\<open>SearchSet\<close> are declared in other files of the package. The
  frequency table is kept abstract (the type variable \<open>'f\<close>); of the search set the code
  here writes the field \<^verbatim>\<open>origin\<close>, every other field is the record's extension \<open>'s\<close>.
\<close>

record SearchSet =
  origin :: string

text \<open>
  The field \<^verbatim>\<open>dict *Dictionary\<close> of the source has no counterpart in the record: every
  \<^verbatim>\<open>IndexedDocument\<close> is built by \<^verbatim>\<open>generateIndexedDocument\<close> with \<^verbatim>\<open>dict: c.Dict\<close>, a pointer to
  the one dictionary of the classifier. The functions that read or write through
  \<^verbatim>\<open>d.dict\<close> take that dictionary as an argument and return it when they change it.
\<close>

record ('f, 's) IndexedDocument =
  Tokens :: "indexedToken list"
  f :: "'f option"
  s :: "'s SearchSet_scheme option"
  runes :: "rune list"
  norm :: string

text \<open>
  The declaration of \<^verbatim>\<open>Classifier\<close> is in another file; these are the fields that
  \<^verbatim>\<open>document.go\<close> uses.
\<close>

record ('f, 's) Classifier =
  Dict :: Dictionary
  Q :: int
  Docs :: "(string, ('f, 's) IndexedDocument) fmap"

text \<open>
  The functions that \<^verbatim>\<open>document.go\<close> calls and that are defined elsewhere, and the
  platform constant \<^verbatim>\<open>os.PathSeparator\<close>, are parameters of the model. The spec has them
  construct their result from their arguments; the model takes them as functions, so
  none of them writes to the document or the dictionary it is given.
\<close>

record ('f, 's) collaborators =
  tokenize :: "byte list \<Rightarrow> document"
  newFrequencies :: "tokenID list \<Rightarrow> 'f"
  newSearchSet :: "('f, 's) IndexedDocument \<Rightarrow> int \<Rightarrow> 's SearchSet_scheme"
  diffWordsToRunes :: "('f, 's) IndexedDocument \<Rightarrow> int \<Rightarrow> int \<Rightarrow> rune list"
  PathSeparator :: char

datatype error = NilPointerDereference

section \<open>Dictionary\<close>

definition newDictionary :: Dictionary where
  "newDictionary = \<lparr>Words = fmempty, Indices = fmempty\<rparr>"

definition unknownWord :: string where
  "unknownWord = ''UNKNOWN''"

definition unknownIndex :: tokenID where
  "unknownIndex = 0"

text \<open>Go's builtin \<^verbatim>\<open>len\<close> on a map: the number of its keys.\<close>

definition len :: "('k, 'v) fmap \<Rightarrow> int" where
  "len m = int (fcard (fmdom m))"

definition getIndex :: "Dictionary \<Rightarrow> string \<Rightarrow> tokenID" where
  "getIndex d word =
     (case fmlookup (Indices d) word of Some idx \<Rightarrow> idx | None \<Rightarrow> unknownIndex)"

definition getWord :: "Dictionary \<Rightarrow> tokenID \<Rightarrow> string" where
  "getWord d index =
     (case fmlookup (Words d) index of Some word \<Rightarrow> word | None \<Rightarrow> unknownWord)"

definition add :: "Dictionary \<Rightarrow> string \<Rightarrow> tokenID \<times> Dictionary" where
  "add d word =
     (let idx = getIndex d word in
      if idx \<noteq> unknownIndex then (idx, d)
      else
        let idx = len (Words d) + 1 in
        (idx, d\<lparr>Words := fmupd idx word (Words d),
                Indices := fmupd word idx (Indices d)\<rparr>))"

text \<open>
  The dictionaries the program can hold: \<^verbatim>\<open>newDictionary()\<close> followed by calls of
  \<^verbatim>\<open>add\<close>, the only function that writes to one. \<open>built ws d\<close> records the words \<open>ws\<close> that
  were passed to \<^verbatim>\<open>add\<close>, in call order.
\<close>

inductive built :: "string list \<Rightarrow> Dictionary \<Rightarrow> bool" where
  built_new: "built [] newDictionary"
| built_add: "built ws d \<Longrightarrow> built (ws @ [word]) (snd (add d word))"

text \<open>The distinct words of a call sequence, in the order of their first occurrence.\<close>

definition firstSeen :: "string list \<Rightarrow> string list" where
  "firstSeen ws = rev (remdups (rev ws))"

text \<open>
  The invariant of a dictionary: the two maps are inverse to each other and the
  identifiers in use are \<open>1, \<dots>, len Words\<close>.
\<close>

definition dict_inv :: "Dictionary \<Rightarrow> bool" where
  "dict_inv d \<longleftrightarrow>
     (\<forall>i w. fmlookup (Words d) i = Some w \<longleftrightarrow> fmlookup (Indices d) w = Some i) \<and>
     fmdom' (Words d) = {1 .. len (Words d)}"

section \<open>IndexedDocument\<close>

definition size_IndexedDocument :: "('f, 's) IndexedDocument \<Rightarrow> int" where
  "size_IndexedDocument d = int (length (IndexedDocument.Tokens d))"

text \<open>
  The loop of \<^verbatim>\<open>normalized\<close>: \<open>i\<close> is the loop index, \<open>ts\<close> the tokens not yet visited and
  \<open>w\<close> the content of the \<^verbatim>\<open>strings.Builder\<close>.
\<close>

fun normalized_loop ::
  "Dictionary \<Rightarrow> ('f, 's) IndexedDocument \<Rightarrow> int \<Rightarrow> indexedToken list \<Rightarrow> string \<Rightarrow> string"
where
  "normalized_loop dict d i [] w = w"
| "normalized_loop dict d i (t # ts) w =
     (let w = w @ getWord dict (ID t);
          w = (if i + 1 \<noteq> size_IndexedDocument d then w @ '' '' else w)
      in normalized_loop dict d (i + 1) ts w)"

definition normalized :: "Dictionary \<Rightarrow> ('f, 's) IndexedDocument \<Rightarrow> string" where
  "normalized dict d = normalized_loop dict d 0 (IndexedDocument.Tokens d) []"

text \<open>
  Modelled from the spec: \<^verbatim>\<open>generateFrequencies\<close> is defined in another file of the
  package. The spec has it compute the frequency table of the document from its token
  identifier sequence and attach it to the document (the field \<^verbatim>\<open>f\<close>, "frequencies
  computed for this document").
\<close>

definition generateFrequencies ::
  "('f, 's) collaborators \<Rightarrow> ('f, 's) IndexedDocument \<Rightarrow> ('f, 's) IndexedDocument"
where
  "generateFrequencies E d = d\<lparr>f := Some (newFrequencies E (map ID (IndexedDocument.Tokens d)))\<rparr>"

definition generateSearchSet ::
  "('f, 's) collaborators \<Rightarrow> ('f, 's) IndexedDocument \<Rightarrow> int \<Rightarrow> ('f, 's) IndexedDocument"
where
  "generateSearchSet E d q = d\<lparr>s := Some (newSearchSet E d q)\<rparr>"

section \<open>Threshold to q\<close>

text \<open>
  \<^verbatim>\<open>computeQ\<close> computes in \<^verbatim>\<open>float64\<close>. A finite \<^verbatim>\<open>float64\<close> is modelled by the real number
  it denotes, and an arithmetic operation by the exact operation on the reals followed
  by rounding to the nearest \<^verbatim>\<open>float64\<close>, ties to the even significand (IEEE 754 binary64:
  53 significant bits, the unit in the last place no smaller than \<open>2\<^sup>-\<^sup>1\<^sup>0\<^sup>7\<^sup>4\<close>, overflow from
  \<open>2\<^sup>1\<^sup>0\<^sup>2\<^sup>4\<close>). NaN and the infinities are not values of the model: an operation whose
  result is one of them returns \<open>None\<close>.
\<close>

text \<open>Rounding a real to the nearest integer, ties to even.\<close>

definition round_half_even :: "real \<Rightarrow> int" where
  "round_half_even y =
     (let n = \<lfloor>y\<rfloor>; r = y - of_int n
      in if r < 1 / 2 then n else if 1 / 2 < r then n + 1 else if even n then n else n + 1)"

text \<open>
  The binary exponent of a positive real: the \<open>k\<close> with \<open>2\<^sup>k \<le> x < 2\<^sup>k\<^sup>+\<^sup>1\<close>, found by
  doubling or halving \<open>x\<close> until it lies in \<open>[1, 2)\<close>.
\<close>

function floor_log2 :: "real \<Rightarrow> int" where
  "floor_log2 x =
     (if x \<le> 0 then 0
      else if x < 1 then floor_log2 (2 * x) - 1
      else if 2 \<le> x then floor_log2 (x / 2) + 1
      else 0)"
  by pat_completeness auto
termination
proof (relation "measure (\<lambda>x. nat \<bar>\<lfloor>log 2 x\<rfloor>\<bar>)")
  show "wf (measure (\<lambda>x. nat \<bar>\<lfloor>log 2 x\<rfloor>\<bar>))" by simp
next
  fix x :: real
  assume "\<not> x \<le> 0" and "x < 1"
  then have pos: "0 < x" by simp
  have "log 2 (2 * x) = 1 + log 2 x" using pos by (simp add: log_mult)
  then have up: "\<lfloor>log 2 (2 * x)\<rfloor> = \<lfloor>log 2 x\<rfloor> + 1" by simp
  have "log 2 x < 0" using pos \<open>x < 1\<close> by simp
  then have "\<lfloor>log 2 x\<rfloor> < 0" by (simp add: floor_less_iff)
  with up have "nat \<bar>\<lfloor>log 2 (2 * x)\<rfloor>\<bar> < nat \<bar>\<lfloor>log 2 x\<rfloor>\<bar>" by linarith
  then show "(2 * x, x) \<in> measure (\<lambda>x. nat \<bar>\<lfloor>log 2 x\<rfloor>\<bar>)" by simp
next
  fix x :: real
  assume "\<not> x \<le> 0" and "\<not> x < 1" and "2 \<le> x"
  then have pos: "0 < x" by simp
  have "log 2 (x / 2) = log 2 x - 1" using pos by (simp add: log_divide)
  then have down: "\<lfloor>log 2 (x / 2)\<rfloor> = \<lfloor>log 2 x\<rfloor> - 1" by simp
  have "1 \<le> log 2 x" using \<open>2 \<le> x\<close> by (simp add: le_log_iff)
  then have "1 \<le> \<lfloor>log 2 x\<rfloor>" by (simp add: le_floor_iff)
  with down have "nat \<bar>\<lfloor>log 2 (x / 2)\<rfloor>\<bar> < nat \<bar>\<lfloor>log 2 x\<rfloor>\<bar>" by linarith
  then show "(x / 2, x) \<in> measure (\<lambda>x. nat \<bar>\<lfloor>log 2 x\<rfloor>\<bar>)" by simp
qed

declare floor_log2.simps [simp del]

text \<open>
  The exponent of the unit in the last place of the \<^verbatim>\<open>float64\<close> numbers of the magnitude of
  \<open>x\<close>: 52 below the exponent of \<open>x\<close> for normal numbers, \<open>-1074\<close> for subnormal ones.
\<close>

definition ulp_exponent :: "real \<Rightarrow> int" where
  "ulp_exponent x = max (floor_log2 \<bar>x\<bar> - 52) (- 1074)"

text \<open>The \<^verbatim>\<open>float64\<close> nearest to a real; \<open>None\<close> when it overflows.\<close>

definition round64 :: "real \<Rightarrow> real option" where
  "round64 x =
     (if x = 0 then Some 0
      else
        let e = ulp_exponent x;
            y = of_int (round_half_even (x / 2 powi e)) * 2 powi e
        in if \<bar>y\<bar> < 2 ^ 1024 then Some y else None)"

text \<open>The reals that are \<^verbatim>\<open>float64\<close> values.\<close>

definition is_float64 :: "real \<Rightarrow> bool" where
  "is_float64 x \<longleftrightarrow> round64 x = Some x"

text \<open>
  The conversion \<^verbatim>\<open>int(x)\<close> of a \<^verbatim>\<open>float64\<close>: the fraction is discarded. \<^verbatim>\<open>int\<close> has 64 bits;
  where the truncated value is outside its range Go leaves the result to the
  implementation, and the model returns \<open>None\<close>.
\<close>

definition int_of_float64 :: "real \<Rightarrow> int option" where
  "int_of_float64 x =
     (let n = (if 0 \<le> x then \<lfloor>x\<rfloor> else \<lceil>x\<rceil>)
      in if - (2 ^ 63) \<le> n \<and> n < 2 ^ 63 then Some n else None)"

text \<open>The function \<^verbatim>\<open>max\<close> of the source.\<close>

definition max_int :: "int \<Rightarrow> int \<Rightarrow> int" where
  "max_int a b = (if a > b then a else b)"

text \<open>
  In \<^verbatim>\<open>computeQ\<close>, \<open>den\<close> is the value of \<^verbatim>\<open>1.0-threshold\<close> and \<open>ratio\<close> that of the quotient.
  A quotient by zero is an infinity or NaN.
\<close>

definition computeQ :: "real \<Rightarrow> int option" where
  "computeQ threshold =
     (if threshold = 1 then Some 10
      else
        case round64 (1 - threshold) of
          None \<Rightarrow> None
        | Some den \<Rightarrow>
            if den = 0 then None
            else
              case round64 (threshold / den) of
                None \<Rightarrow> None
              | Some ratio \<Rightarrow> map_option (max_int 1) (int_of_float64 ratio))"

section \<open>Classifier\<close>

text \<open>
  The loop of \<^verbatim>\<open>generateIndexedDocument\<close> over \<^verbatim>\<open>d.Tokens\<close>. Its state is the document
  under construction and the dictionary behind \<^verbatim>\<open>id.dict\<close>.
\<close>

fun generateIndexedDocument_loop ::
  "bool \<Rightarrow> token list \<Rightarrow> ('f, 's) IndexedDocument \<times> Dictionary \<Rightarrow>
   ('f, 's) IndexedDocument \<times> Dictionary"
where
  "generateIndexedDocument_loop addWords [] (idoc, dict) = (idoc, dict)"
| "generateIndexedDocument_loop addWords (t # ts) (idoc, dict) =
     (let (tokID, dict) =
            (if addWords then add dict (Text t) else (getIndex dict (Text t), dict));
          idoc = idoc\<lparr>IndexedDocument.Tokens := IndexedDocument.Tokens idoc @
                   [\<lparr>indexedToken.Index = token.Index t, Line = token.Line t, ID = tokID\<rparr>]\<rparr>
      in generateIndexedDocument_loop addWords ts (idoc, dict))"

definition generateIndexedDocument ::
  "('f, 's) collaborators \<Rightarrow> ('f, 's) Classifier \<Rightarrow> document \<Rightarrow> bool \<Rightarrow>
   ('f, 's) IndexedDocument \<times> ('f, 's) Classifier"
where
  "generateIndexedDocument E c d addWords =
     (let idoc = \<lparr>IndexedDocument.Tokens = [], f = None, s = None, runes = [], norm = []\<rparr>;
          (idoc, dict) = generateIndexedDocument_loop addWords (document.Tokens d) (idoc, Dict c);
          idoc = generateFrequencies E idoc;
          idoc = idoc\<lparr>runes := diffWordsToRunes E idoc 0 (size_IndexedDocument idoc)\<rparr>;
          idoc = idoc\<lparr>norm := normalized dict idoc\<rparr>
      in (idoc, c\<lparr>Dict := dict\<rparr>))"

definition createTargetIndexedDocument ::
  "('f, 's) collaborators \<Rightarrow> ('f, 's) Classifier \<Rightarrow> byte list \<Rightarrow>
   ('f, 's) IndexedDocument \<times> ('f, 's) Classifier"
where
  "createTargetIndexedDocument E c content =
     (let doc = tokenize E content in generateIndexedDocument E c doc False)"

definition generateDocName ::
  "('f, 's) collaborators \<Rightarrow> string \<Rightarrow> string \<Rightarrow> string \<Rightarrow> string"
where
  "generateDocName E category name variant =
     category @ [PathSeparator E] @ name @ [PathSeparator E] @ variant"

text \<open>
  \<^verbatim>\<open>id.s.origin = indexName\<close> dereferences \<^verbatim>\<open>id.s\<close>: on a \<^verbatim>\<open>nil\<close> search set it panics.
\<close>

definition addDocument ::
  "('f, 's) collaborators \<Rightarrow> ('f, 's) Classifier \<Rightarrow> string \<Rightarrow> string \<Rightarrow> string \<Rightarrow> document \<Rightarrow>
   error + ('f, 's) Classifier"
where
  "addDocument E c category name variant doc =
     (let indexName = generateDocName E category name variant;
          (idoc, c) = generateIndexedDocument E c doc True;
          idoc = generateFrequencies E idoc;
          idoc = generateSearchSet E idoc (Q c)
      in case s idoc of
           None \<Rightarrow> Inl NilPointerDereference
         | Some sset \<Rightarrow>
             (let idoc = idoc\<lparr>s := Some (sset\<lparr>origin := indexName\<rparr>)\<rparr>
              in Inr (c\<lparr>Docs := fmupd indexName idoc (Docs c)\<rparr>)))"

definition AddContent ::
  "('f, 's) collaborators \<Rightarrow> ('f, 's) Classifier \<Rightarrow> string \<Rightarrow> string \<Rightarrow> string \<Rightarrow> byte list \<Rightarrow>
   error + ('f, 's) Classifier"
where
  "AddContent E c category name variant content =
     (let doc = tokenize E content in addDocument E c category name variant doc)"

definition getIndexedDocument ::
  "('f, 's) collaborators \<Rightarrow> ('f, 's) Classifier \<Rightarrow> string \<Rightarrow> string \<Rightarrow> string \<Rightarrow>
   ('f, 's) IndexedDocument option"
where
  "getIndexedDocument E c category name variant =
     fmlookup (Docs c) (generateDocName E category name variant)"

section \<open>Definitions used in the statements\<close>

text \<open>
  The space-joined concatenation of a list of words, as the spec words the result of
  \<^verbatim>\<open>normalized\<close>: the words in order, one space between two neighbours.
\<close>

fun space_joined :: "string list \<Rightarrow> string" where
  "space_joined [] = []"
| "space_joined [x] = x"
| "space_joined (x # y # zs) = x @ '' '' @ space_joined (y # zs)"

text \<open>
  An instance of the parameters, for evaluating the model on concrete inputs: the
  frequency table is the list of identifiers itself, the search set has no field but
  \<^verbatim>\<open>origin\<close>, and the path separator is the one of Unix.
\<close>

definition example_collaborators :: "(tokenID list, unit) collaborators" where
  "example_collaborators =
     \<lparr>tokenize = (\<lambda>content. \<lparr>document.Tokens = []\<rparr>),
      newFrequencies = (\<lambda>ids. ids),
      newSearchSet = (\<lambda>d q. \<lparr>origin = []\<rparr>),
      diffWordsToRunes = (\<lambda>d start end. []),
      PathSeparator = CHR ''/''\<rparr>"

section \<open>Properties of the dictionary\<close>

lemma len_nonneg: "0 \<le> len m"
  by (simp add: len_def)

lemma len_upd_fresh: "fmlookup m k = None \<Longrightarrow> len (fmupd k v m) = len m + 1"
  by (simp add: len_def fcard_finsert_disjoint fmdom_notI)

lemma dict_inv_new: "dict_inv newDictionary"
  by (simp add: dict_inv_def newDictionary_def len_def)

lemma getIndex_unknown_iff:
  assumes "dict_inv d"
  shows "getIndex d w = unknownIndex \<longleftrightarrow> fmlookup (Indices d) w = None"
proof
  assume g: "getIndex d w = unknownIndex"
  show "fmlookup (Indices d) w = None"
  proof (cases "fmlookup (Indices d) w")
    case None
    then show ?thesis .
  next
    case (Some i)
    with g have "i = 0" by (simp add: getIndex_def unknownIndex_def)
    with Some assms have "fmlookup (Words d) 0 = Some w" by (simp add: dict_inv_def)
    then have "0 \<in> fmdom' (Words d)" by (rule fmdom'I)
    with assms have "(0::int) \<in> {1 .. len (Words d)}" by (simp add: dict_inv_def)
    then show ?thesis by simp
  qed
next
  assume "fmlookup (Indices d) w = None"
  then show "getIndex d w = unknownIndex" by (simp add: getIndex_def)
qed

lemma fresh_index_unused:
  assumes "dict_inv d"
  shows "fmlookup (Words d) (len (Words d) + 1) = None"
proof -
  from assms have "len (Words d) + 1 \<notin> fmdom' (Words d)" by (simp add: dict_inv_def)
  then show ?thesis by (rule fmdom'_notD)
qed

lemma add_present:
  "getIndex d w \<noteq> unknownIndex \<Longrightarrow> add d w = (getIndex d w, d)"
  by (simp add: add_def)

lemma add_absent:
  "getIndex d w = unknownIndex \<Longrightarrow>
   add d w = (len (Words d) + 1,
     d\<lparr>Words := fmupd (len (Words d) + 1) w (Words d),
       Indices := fmupd w (len (Words d) + 1) (Indices d)\<rparr>)"
  by (simp add: add_def Let_def)

lemma dict_inv_add:
  assumes inv: "dict_inv d"
  shows "dict_inv (snd (add d w))"
proof (cases "getIndex d w = unknownIndex")
  case False
  with inv show ?thesis by (simp add: add_present)
next
  case True
  let ?n = "len (Words d)"
  from True inv have absent: "fmlookup (Indices d) w = None"
    by (simp add: getIndex_unknown_iff)
  from inv have unused: "fmlookup (Words d) (?n + 1) = None"
    by (rule fresh_index_unused)
  have bij: "\<And>i v. fmlookup (Words d) i = Some v \<longleftrightarrow> fmlookup (Indices d) v = Some i"
    using inv by (simp add: dict_inv_def)
  have dom: "fmdom' (Words d) = {1 .. ?n}"
    using inv by (simp add: dict_inv_def)
  have len': "len (fmupd (?n + 1) w (Words d)) = ?n + 1"
    using unused by (rule len_upd_fresh)
  have "{1 .. ?n + 1} = insert (?n + 1) {1 .. ?n}"
    using len_nonneg [of "Words d"] by auto
  then have dom': "fmdom' (fmupd (?n + 1) w (Words d)) = {1 .. len (fmupd (?n + 1) w (Words d))}"
    using dom len' by simp
  have bij': "fmlookup (fmupd (?n + 1) w (Words d)) i = Some v \<longleftrightarrow>
              fmlookup (fmupd w (?n + 1) (Indices d)) v = Some i" for i v
    using absent unused bij [of i v] by auto
  show ?thesis
    unfolding add_absent [OF True] dict_inv_def using bij' dom' by simp
qed

lemma built_inv: "built ws d \<Longrightarrow> dict_inv d"
  by (induction rule: built.induct) (simp_all add: dict_inv_new dict_inv_add)

lemma firstSeen_snoc:
  "firstSeen (ws @ [w]) = (if w \<in> set ws then firstSeen ws else firstSeen ws @ [w])"
  by (simp add: firstSeen_def)

lemma set_firstSeen: "set (firstSeen ws) = set ws"
  by (simp add: firstSeen_def)

lemma distinct_firstSeen: "distinct (firstSeen ws)"
  by (simp add: firstSeen_def)

lemma firstSeen_distinct: "distinct ws \<Longrightarrow> firstSeen ws = ws"
  by (simp add: firstSeen_def distinct_remdups_id)

lemma Indices_add:
  "fmdom' (Indices (snd (add d w))) = insert w (fmdom' (Indices d))"
proof (cases "getIndex d w = unknownIndex")
  case True
  then show ?thesis by (simp add: add_absent)
next
  case False
  then have "fmlookup (Indices d) w \<noteq> None"
    by (auto simp: getIndex_def split: option.splits)
  then have "w \<in> fmdom' (Indices d)"
    by (auto simp: fmlookup_dom'_iff)
  with False show ?thesis by (auto simp: add_present)
qed

lemma built_dom_Indices: "built ws d \<Longrightarrow> fmdom' (Indices d) = set ws"
  by (induction rule: built.induct) (simp_all add: newDictionary_def Indices_add)

lemma built_getIndex_unknown:
  assumes "built ws d"
  shows "getIndex d w = unknownIndex \<longleftrightarrow> w \<notin> set ws"
proof -
  have "getIndex d w = unknownIndex \<longleftrightarrow> fmlookup (Indices d) w = None"
    using assms by (simp add: built_inv getIndex_unknown_iff)
  also have "\<dots> \<longleftrightarrow> w \<notin> fmdom' (Indices d)"
    by (auto simp: fmlookup_dom'_iff)
  finally show ?thesis using assms by (simp add: built_dom_Indices)
qed

lemma inv_getWord_getIndex:
  assumes "dict_inv d" and "getIndex d w \<noteq> unknownIndex"
  shows "getWord d (getIndex d w) = w"
proof -
  from assms(2) obtain i where i: "fmlookup (Indices d) w = Some i"
    by (cases "fmlookup (Indices d) w") (auto simp: getIndex_def)
  with assms(1) have "fmlookup (Words d) i = Some w" by (simp add: dict_inv_def)
  with i show ?thesis by (simp add: getIndex_def getWord_def)
qed

lemma add_getIndex:
  shows "getIndex (snd (add d w)) w = fst (add d w)" and "fst (add d w) \<noteq> unknownIndex"
proof -
  show "getIndex (snd (add d w)) w = fst (add d w)"
    by (cases "getIndex d w = unknownIndex") (simp_all add: add_absent add_present getIndex_def)
  show "fst (add d w) \<noteq> unknownIndex"
    using len_nonneg [of "Words d"]
    by (cases "getIndex d w = unknownIndex") (simp_all add: add_absent add_present unknownIndex_def)
qed

lemma add_keeps_getIndex:
  assumes "dict_inv d" and "getIndex d v \<noteq> unknownIndex"
  shows "getIndex (snd (add d w)) v = getIndex d v"
proof (cases "getIndex d w = unknownIndex")
  case True
  with assms(2) have "v \<noteq> w" by auto
  with True show ?thesis by (simp add: add_absent getIndex_def)
next
  case False
  then show ?thesis by (simp add: add_present)
qed

lemma add_keeps_getWord:
  assumes "dict_inv d" and "fmlookup (Words d) i = Some v"
  shows "getWord (snd (add d w)) i = v"
proof (cases "getIndex d w = unknownIndex")
  case True
  from assms(1) have "fmlookup (Words d) (len (Words d) + 1) = None"
    by (rule fresh_index_unused)
  with assms(2) have "i \<noteq> len (Words d) + 1" by auto
  with True assms(2) show ?thesis by (simp add: add_absent getWord_def)
next
  case False
  with assms(2) show ?thesis by (simp add: add_present getWord_def)
qed

lemma len_fmempty: "len fmempty = 0"
  by (simp add: len_def)

lemma len_fmupd: "len (fmupd k v m) = (if k |\<in>| fmdom m then len m else len m + 1)"
  by (simp add: len_def fcard_finsert_if)

lemmas dict_eval = add_def newDictionary_def getIndex_def getWord_def unknownIndex_def
  unknownWord_def len_fmempty len_fmupd Let_def

section \<open>Claims about the dictionary\<close>

text \<open>
  Claim C4. For every word \<open>w\<close> (empty or not): when \<^verbatim>\<open>add(w)\<close> returns the identifier \<open>i\<close>
  and leaves the dictionary \<open>d'\<close>, then in \<open>d'\<close> \<^verbatim>\<open>getIndex(w)\<close> is \<open>i\<close> and a second \<^verbatim>\<open>add(w)\<close>
  returns \<open>i\<close> again and leaves \<open>d'\<close> as it is; this holds for every value of the struct.
  \<^verbatim>\<open>getWord(i)\<close> is \<open>w\<close> in every dictionary that the program can hold, that is, one built
  from \<^verbatim>\<open>newDictionary()\<close> by calls of \<^verbatim>\<open>add\<close> (\<open>built ws d\<close>); the two maps of such a dictionary
  are inverse to each other, which \<^verbatim>\<open>getWord\<close> after \<^verbatim>\<open>getIndex\<close> relies on.
\<close>

theorem add_lookup_roundtrip:
  assumes "add d w = (i, d')"
  shows "getIndex d' w = i \<and> add d' w = (i, d') \<and> (built ws d \<longrightarrow> getWord d' i = w)"
proof -
  have gi: "getIndex d' w = i" and nz: "i \<noteq> unknownIndex"
    using add_getIndex [of d w] assms by simp_all
  from gi nz have again: "add d' w = (i, d')"
    using add_present [of d' w] by simp
  have gw: "getWord d' i = w" if "built ws d"
  proof -
    from that have "dict_inv d" by (rule built_inv)
    then have "dict_inv d'" using dict_inv_add [of d w] assms by simp
    with gi nz show ?thesis
      using inv_getWord_getIndex [of d' w] by simp
  qed
  from gi again gw show ?thesis by simp
qed

theorem add_lookup_roundtrip_witness:
  "built [''a''] (snd (add newDictionary ''a'')) \<and>
   add (snd (add newDictionary ''a'')) ''b'' =
     (2, \<lparr>Words = fmupd 2 ''b'' (fmupd 1 ''a'' fmempty),
          Indices = fmupd ''b'' 2 (fmupd ''a'' 1 fmempty)\<rparr>) \<and>
   getIndex \<lparr>Words = fmupd 2 ''b'' (fmupd 1 ''a'' fmempty),
          Indices = fmupd ''b'' 2 (fmupd ''a'' 1 fmempty)\<rparr> ''b'' = 2 \<and>
   getWord \<lparr>Words = fmupd 2 ''b'' (fmupd 1 ''a'' fmempty),
          Indices = fmupd ''b'' 2 (fmupd ''a'' 1 fmempty)\<rparr> 2 = ''b'' \<and>
   add \<lparr>Words = fmupd 2 ''b'' (fmupd 1 ''a'' fmempty),
          Indices = fmupd ''b'' 2 (fmupd ''a'' 1 fmempty)\<rparr> ''b'' =
     (2, \<lparr>Words = fmupd 2 ''b'' (fmupd 1 ''a'' fmempty),
          Indices = fmupd ''b'' 2 (fmupd ''a'' 1 fmempty)\<rparr>)"
proof -
  have b: "built [''a''] (snd (add newDictionary ''a''))"
    using built_add [OF built_new, of "''a''"] by simp
  have e: "add (snd (add newDictionary ''a'')) ''b'' =
     (2, \<lparr>Words = fmupd 2 ''b'' (fmupd 1 ''a'' fmempty),
          Indices = fmupd ''b'' 2 (fmupd ''a'' 1 fmempty)\<rparr>)"
    by (simp add: dict_eval)
  from add_lookup_roundtrip [OF e, of "[''a'']"] b e show ?thesis by simp
qed

lemma built_firstSeen:
  assumes "built ws d"
  shows "len (Words d) = int (length (firstSeen ws)) \<and>
         (\<forall>k<length (firstSeen ws). fmlookup (Words d) (int k + 1) = Some (firstSeen ws ! k))"
  using assms
proof (induction rule: built.induct)
  case built_new
  show ?case by (simp add: newDictionary_def len_fmempty firstSeen_def)
next
  case (built_add ws d w)
  let ?us = "firstSeen ws"
  let ?n = "len (Words d)"
  from built_add.IH have n: "?n = int (length ?us)"
    and look: "\<And>k. k < length ?us \<Longrightarrow> fmlookup (Words d) (int k + 1) = Some (?us ! k)"
    by simp_all
  show ?case
  proof (cases "w \<in> set ws")
    case True
    with built_add.hyps have "getIndex d w \<noteq> unknownIndex"
      by (simp add: built_getIndex_unknown)
    then have "snd (add d w) = d" by (simp add: add_present)
    with True n look show ?thesis by (simp add: firstSeen_snoc)
  next
    case False
    with built_add.hyps have unk: "getIndex d w = unknownIndex"
      by (simp add: built_getIndex_unknown)
    from built_add.hyps have inv: "dict_inv d" by (rule built_inv)
    have W: "Words (snd (add d w)) = fmupd (?n + 1) w (Words d)"
      using unk by (simp add: add_absent)
    have fs: "firstSeen (ws @ [w]) = ?us @ [w]"
      using False by (simp add: firstSeen_snoc)
    have l: "len (Words (snd (add d w))) = int (length (firstSeen (ws @ [w])))"
      unfolding W fs using len_upd_fresh [OF fresh_index_unused [OF inv]] n by simp
    have "fmlookup (Words (snd (add d w))) (int k + 1) = Some (firstSeen (ws @ [w]) ! k)"
      if "k < length (firstSeen (ws @ [w]))" for k
    proof (cases "k < length ?us")
      case True
      with n have "int k + 1 \<noteq> ?n + 1" by simp
      with True look [OF True] show ?thesis
        unfolding W fs by (simp add: nth_append)
    next
      case False
      with that have "k = length ?us" unfolding fs by simp
      with n show ?thesis unfolding W fs by simp
    qed
    with l show ?thesis by blast
  qed
qed

lemma built_ids:
  assumes "built ws d" and "k < length (firstSeen ws)"
  shows "getIndex d (firstSeen ws ! k) = int k + 1" and "getWord d (int k + 1) = firstSeen ws ! k"
proof -
  from built_firstSeen [OF assms(1)] assms(2)
  have W: "fmlookup (Words d) (int k + 1) = Some (firstSeen ws ! k)" by blast
  then show "getWord d (int k + 1) = firstSeen ws ! k" by (simp add: getWord_def)
  from built_inv [OF assms(1)] W have "fmlookup (Indices d) (firstSeen ws ! k) = Some (int k + 1)"
    by (simp add: dict_inv_def)
  then show "getIndex d (firstSeen ws ! k) = int k + 1" by (simp add: getIndex_def)
qed

lemma inv_getIndex_le_len:
  assumes "dict_inv d"
  shows "getIndex d v \<le> len (Words d)"
proof (cases "fmlookup (Indices d) v")
  case None
  then show ?thesis using len_nonneg [of "Words d"] by (simp add: getIndex_def unknownIndex_def)
next
  case (Some i)
  with assms have "fmlookup (Words d) i = Some v" by (simp add: dict_inv_def)
  then have "i \<in> fmdom' (Words d)" by (rule fmdom'I)
  with assms have "i \<in> {1 .. len (Words d)}" by (simp add: dict_inv_def)
  with Some show ?thesis by (simp add: getIndex_def)
qed

text \<open>
  Claim C5. In a dictionary built by the calls \<^verbatim>\<open>add(ws\<^sub>0)\<close>, \<^verbatim>\<open>add(ws\<^sub>1)\<close>, \<open>\<dots>\<close>:
  \<^item> \<^verbatim>\<open>add(w)\<close> of a word already present returns its identifier and changes nothing;
  \<^item> \<^verbatim>\<open>add(w)\<close> of a new word returns \<^verbatim>\<open>len(d.Words) + 1\<close>, an identifier not in use and
    greater than every identifier assigned before, and records \<open>w\<close> under it in both maps;
  \<^item> the number of entries is the number of distinct words added, and the \<open>k\<close>-th distinct
    word in order of first occurrence (counting from \<open>0\<close>) has the identifier \<open>k + 1\<close>:
    identifiers start at \<open>1\<close> and are dense;
  \<^item> a further \<^verbatim>\<open>add\<close> leaves the identifier and the word of every earlier entry as they
    were.
\<close>

theorem add_dense_first_seen:
  assumes "built ws d"
  shows "(w \<in> set ws \<longrightarrow> getIndex d w \<noteq> unknownIndex \<and> add d w = (getIndex d w, d)) \<and>
         (w \<notin> set ws \<longrightarrow>
            add d w = (len (Words d) + 1,
              d\<lparr>Words := fmupd (len (Words d) + 1) w (Words d),
                Indices := fmupd w (len (Words d) + 1) (Indices d)\<rparr>) \<and>
            fmlookup (Words d) (len (Words d) + 1) = None \<and>
            (\<forall>v\<in>set ws. getIndex d v < len (Words d) + 1)) \<and>
         len (Words d) = int (length (firstSeen ws)) \<and>
         (\<forall>k<length (firstSeen ws).
            getIndex d (firstSeen ws ! k) = int k + 1 \<and>
            getWord d (int k + 1) = firstSeen ws ! k) \<and>
         (\<forall>v\<in>set ws.
            getIndex (snd (add d w)) v = getIndex d v \<and>
            getWord (snd (add d w)) (getIndex d v) = v)"
proof -
  from assms have inv: "dict_inv d" by (rule built_inv)
  have present: "w \<in> set ws \<longrightarrow> getIndex d w \<noteq> unknownIndex \<and> add d w = (getIndex d w, d)"
    using assms by (simp add: built_getIndex_unknown add_present)
  have absent: "w \<notin> set ws \<longrightarrow>
            add d w = (len (Words d) + 1,
              d\<lparr>Words := fmupd (len (Words d) + 1) w (Words d),
                Indices := fmupd w (len (Words d) + 1) (Indices d)\<rparr>) \<and>
            fmlookup (Words d) (len (Words d) + 1) = None \<and>
            (\<forall>v\<in>set ws. getIndex d v < len (Words d) + 1)"
    using assms inv inv_getIndex_le_len [OF inv]
    by (simp add: built_getIndex_unknown add_absent fresh_index_unused less_Suc_eq_le)
  have count: "len (Words d) = int (length (firstSeen ws))"
    using built_firstSeen [OF assms] by simp
  have order: "\<forall>k<length (firstSeen ws).
            getIndex d (firstSeen ws ! k) = int k + 1 \<and>
            getWord d (int k + 1) = firstSeen ws ! k"
    using built_ids [OF assms] by simp
  have stable: "getIndex (snd (add d w)) v = getIndex d v \<and>
            getWord (snd (add d w)) (getIndex d v) = v" if "v \<in> set ws" for v
  proof -
    from that assms have nz: "getIndex d v \<noteq> unknownIndex"
      by (simp add: built_getIndex_unknown)
    then obtain i where i: "fmlookup (Indices d) v = Some i"
      by (cases "fmlookup (Indices d) v") (auto simp: getIndex_def)
    with inv have "fmlookup (Words d) i = Some v" by (simp add: dict_inv_def)
    then have "getWord (snd (add d w)) i = v" by (rule add_keeps_getWord [OF inv])
    with i add_keeps_getIndex [OF inv nz] show ?thesis by (simp add: getIndex_def)
  qed
  from present absent count order stable show ?thesis by blast
qed

theorem add_dense_first_seen_witness:
  "built [''a'', ''b'', ''a''] (snd (add (snd (add (snd (add newDictionary ''a'')) ''b'')) ''a'')) \<and>
   firstSeen [''a'', ''b'', ''a''] = [''a'', ''b''] \<and>
   fst (add newDictionary ''a'') = 1 \<and>
   fst (add (snd (add newDictionary ''a'')) ''b'') = 2 \<and>
   fst (add (snd (add (snd (add newDictionary ''a'')) ''b'')) ''a'') = 1 \<and>
   add (snd (add (snd (add (snd (add newDictionary ''a'')) ''b'')) ''a'')) ''b'' =
     (2, snd (add (snd (add (snd (add newDictionary ''a'')) ''b'')) ''a'')) \<and>
   fst (add (snd (add (snd (add (snd (add newDictionary ''a'')) ''b'')) ''a'')) ''c'') = 3 \<and>
   getIndex (snd (add (snd (add (snd (add (snd (add newDictionary ''a'')) ''b'')) ''a'')) ''c'')) ''a'' = 1 \<and>
   getWord (snd (add (snd (add (snd (add (snd (add newDictionary ''a'')) ''b'')) ''a'')) ''c'')) 2 = ''b''"
proof -
  let ?d = "snd (add (snd (add (snd (add newDictionary ''a'')) ''b'')) ''a'')"
  have b: "built [''a'', ''b'', ''a''] ?d"
    using built_add [OF built_add [OF built_add [OF built_new, of "''a''"], of "''b''"], of "''a''"]
    by simp
  have fs: "firstSeen [''a'', ''b'', ''a''] = [''a'', ''b'']"
    by (simp add: firstSeen_def)
  from add_dense_first_seen [OF b, of "''b''"] add_dense_first_seen [OF b, of "''c''"] b fs
  show ?thesis by (simp add: dict_eval)
qed

text \<open>
  Claim C6. In a dictionary built by calls of \<^verbatim>\<open>add\<close> on the words \<open>ws\<close>: \<^verbatim>\<open>getIndex\<close> of a
  word that was never added is \<open>0\<close>; \<^verbatim>\<open>getWord(0)\<close> is \<^verbatim>\<open>"UNKNOWN"\<close>; and \<^verbatim>\<open>getWord(i)\<close> is
  \<^verbatim>\<open>"UNKNOWN"\<close> for every \<open>i\<close> that is not the identifier of an added word. Both lookups are
  total functions of the dictionary and the key, as in the source, where they read one
  map with the two-result form of the index expression and assign to nothing: they
  cannot fail and they leave the dictionary as it is.
\<close>

theorem lookup_sentinels:
  assumes "built ws d"
  shows "(w \<notin> set ws \<longrightarrow> getIndex d w = 0) \<and>
         getWord d 0 = ''UNKNOWN'' \<and>
         ((\<forall>v\<in>set ws. getIndex d v \<noteq> i) \<longrightarrow> getWord d i = ''UNKNOWN'')"
proof -
  from assms have inv: "dict_inv d" by (rule built_inv)
  have a: "w \<notin> set ws \<longrightarrow> getIndex d w = 0"
    using built_getIndex_unknown [OF assms, of w] by (simp add: unknownIndex_def)
  have "(0::int) \<notin> fmdom' (Words d)" using inv by (simp add: dict_inv_def)
  then have "fmlookup (Words d) 0 = None" by (rule fmdom'_notD)
  then have b: "getWord d 0 = ''UNKNOWN''" by (simp add: getWord_def unknownWord_def)
  have c: "getWord d i = ''UNKNOWN''" if never: "\<forall>v\<in>set ws. getIndex d v \<noteq> i"
  proof (cases "fmlookup (Words d) i")
    case None
    then show ?thesis by (simp add: getWord_def unknownWord_def)
  next
    case (Some v)
    with inv have I: "fmlookup (Indices d) v = Some i" by (simp add: dict_inv_def)
    then have "v \<in> fmdom' (Indices d)" by (rule fmdom'I)
    then have "v \<in> set ws" using assms by (simp add: built_dom_Indices)
    moreover from I have "getIndex d v = i" by (simp add: getIndex_def)
    ultimately show ?thesis using never by blast
  qed
  from a b c show ?thesis by blast
qed

theorem lookup_sentinels_witness:
  "built [''a''] (snd (add newDictionary ''a'')) \<and>
   ''b'' \<notin> set [''a''] \<and>
   getIndex (snd (add newDictionary ''a'')) ''b'' = 0 \<and>
   getWord (snd (add newDictionary ''a'')) 0 = ''UNKNOWN'' \<and>
   getIndex (snd (add newDictionary ''a'')) ''a'' = 1 \<and>
   getWord (snd (add newDictionary ''a'')) 7 = ''UNKNOWN''"
proof -
  have b: "built [''a''] (snd (add newDictionary ''a''))"
    using built_add [OF built_new, of "''a''"] by simp
  from lookup_sentinels [OF b, of "''b''" 7] b show ?thesis by (simp add: dict_eval)
qed

section \<open>Properties of indexing\<close>

lemma loop_resolve:
  "generateIndexedDocument_loop False ts (idoc, dict) =
     (idoc\<lparr>IndexedDocument.Tokens := IndexedDocument.Tokens idoc @
        map (\<lambda>t. \<lparr>indexedToken.Index = token.Index t, Line = token.Line t,
                   ID = getIndex dict (Text t)\<rparr>) ts\<rparr>, dict)"
  by (induction ts arbitrary: idoc) simp_all

lemma loop_frame:
  "f (fst (generateIndexedDocument_loop b ts (idoc, dict))) = f idoc \<and>
   s (fst (generateIndexedDocument_loop b ts (idoc, dict))) = s idoc \<and>
   runes (fst (generateIndexedDocument_loop b ts (idoc, dict))) = runes idoc \<and>
   norm (fst (generateIndexedDocument_loop b ts (idoc, dict))) = norm idoc"
  by (induction ts arbitrary: idoc dict) (simp_all add: split_beta Let_def)

lemma loop_prefix:
  "\<exists>ys. IndexedDocument.Tokens (fst (generateIndexedDocument_loop b ts (idoc, dict))) =
          IndexedDocument.Tokens idoc @ ys \<and> length ys = length ts"
proof (induction ts arbitrary: idoc dict)
  case Nil
  show ?case by simp
next
  case (Cons t ts)
  let ?r = "if b then add dict (Text t) else (getIndex dict (Text t), dict)"
  let ?tok = "\<lparr>indexedToken.Index = token.Index t, Line = token.Line t, ID = fst ?r\<rparr>"
  let ?idoc = "idoc\<lparr>IndexedDocument.Tokens := IndexedDocument.Tokens idoc @ [?tok]\<rparr>"
  have step: "generateIndexedDocument_loop b (t # ts) (idoc, dict) =
              generateIndexedDocument_loop b ts (?idoc, snd ?r)"
    by (simp add: split_beta Let_def)
  from Cons.IH [of ?idoc "snd ?r"] obtain ys where
    "IndexedDocument.Tokens (fst (generateIndexedDocument_loop b ts (?idoc, snd ?r))) =
       IndexedDocument.Tokens ?idoc @ ys" and "length ys = length ts"
    by blast
  then have "IndexedDocument.Tokens (fst (generateIndexedDocument_loop b (t # ts) (idoc, dict))) =
       IndexedDocument.Tokens idoc @ (?tok # ys) \<and> length (?tok # ys) = length (t # ts)"
    unfolding step by simp
  then show ?case by blast
qed

lemma loop_nth:
  assumes "i < length ts"
  shows "IndexedDocument.Tokens (fst (generateIndexedDocument_loop b ts (idoc, dict))) !
           (length (IndexedDocument.Tokens idoc) + i) =
         \<lparr>indexedToken.Index = token.Index (ts ! i), Line = token.Line (ts ! i),
          ID = (let dict' = snd (generateIndexedDocument_loop b (take i ts) (idoc, dict))
                in if b then fst (add dict' (Text (ts ! i))) else getIndex dict' (Text (ts ! i)))\<rparr>"
  using assms
proof (induction ts arbitrary: idoc dict i)
  case Nil
  then show ?case by simp
next
  case (Cons t ts)
  let ?r = "if b then add dict (Text t) else (getIndex dict (Text t), dict)"
  let ?tok = "\<lparr>indexedToken.Index = token.Index t, Line = token.Line t, ID = fst ?r\<rparr>"
  let ?idoc = "idoc\<lparr>IndexedDocument.Tokens := IndexedDocument.Tokens idoc @ [?tok]\<rparr>"
  have step: "\<And>us. generateIndexedDocument_loop b (t # us) (idoc, dict) =
              generateIndexedDocument_loop b us (?idoc, snd ?r)"
    by (simp add: split_beta Let_def)
  show ?case
  proof (cases i)
    case 0
    from loop_prefix [of b ts ?idoc "snd ?r"] obtain ys where
      "IndexedDocument.Tokens (fst (generateIndexedDocument_loop b ts (?idoc, snd ?r))) =
         IndexedDocument.Tokens ?idoc @ ys"
      by blast
    then have "IndexedDocument.Tokens (fst (generateIndexedDocument_loop b (t # ts) (idoc, dict))) !
           length (IndexedDocument.Tokens idoc) = ?tok"
      unfolding step by (simp add: nth_append)
    with 0 show ?thesis by simp
  next
    case (Suc j)
    with Cons.prems have j: "j < length ts" by simp
    from Suc have tk: "take i (t # ts) = t # take j ts" by simp
    from Cons.IH [OF j, of ?idoc "snd ?r"] Suc show ?thesis
      unfolding tk step by simp
  qed
qed

lemma Tokens_generateIndexedDocument:
  fixes E :: "('f, 's) collaborators"
  shows "IndexedDocument.Tokens (fst (generateIndexedDocument E c d b)) =
   IndexedDocument.Tokens (fst (generateIndexedDocument_loop b (document.Tokens d)
     (\<lparr>IndexedDocument.Tokens = [], f = None :: 'f option, s = None :: 's SearchSet_scheme option,
       runes = [], norm = []\<rparr>, Dict c)))"
  by (simp add: generateIndexedDocument_def generateFrequencies_def split_beta Let_def)

lemma Dict_generateIndexedDocument:
  fixes E :: "('f, 's) collaborators"
  shows "Dict (snd (generateIndexedDocument E c d b)) =
   snd (generateIndexedDocument_loop b (document.Tokens d)
     (\<lparr>IndexedDocument.Tokens = [], f = None :: 'f option, s = None :: 's SearchSet_scheme option,
       runes = [], norm = []\<rparr>, Dict c))"
  by (simp add: generateIndexedDocument_def split_beta Let_def)

lemma loop_resolve_dict:
  "snd (generateIndexedDocument_loop False ts (idoc, dict)) = dict"
  by (simp add: loop_resolve)

lemma loop_grow_dict:
  "snd (generateIndexedDocument_loop True ts (idoc, dict)) =
   fold (\<lambda>t D. snd (add D (Text t))) ts dict"
  by (induction ts arbitrary: idoc dict) (simp_all add: split_beta Let_def)

lemmas index_eval = generateIndexedDocument_def generateFrequencies_def generateSearchSet_def
  example_collaborators_def normalized_def size_IndexedDocument_def dict_eval

section \<open>Properties of \<^verbatim>\<open>normalized\<close>\<close>

lemma space_joined_Cons:
  "space_joined (x # xs) = (if xs = [] then x else x @ '' '' @ space_joined xs)"
  by (cases xs) simp_all

lemma normalized_loop_joined:
  assumes "i + int (length ts) = size_IndexedDocument d"
  shows "normalized_loop dict d i ts w = w @ space_joined (map (\<lambda>t. getWord dict (ID t)) ts)"
  using assms
proof (induction ts arbitrary: i w)
  case Nil
  show ?case by simp
next
  case (Cons t ts)
  from Cons.prems have next_i: "(i + 1) + int (length ts) = size_IndexedDocument d"
    by simp
  from Cons.prems have last: "i + 1 \<noteq> size_IndexedDocument d \<longleftrightarrow> ts \<noteq> []"
    by (cases ts) simp_all
  show ?case
    using Cons.IH [OF next_i] last by (simp add: space_joined_Cons Let_def)
qed

lemma normalized_joined:
  "normalized dict d = space_joined (map (\<lambda>t. getWord dict (ID t)) (IndexedDocument.Tokens d))"
  using normalized_loop_joined [of 0 "IndexedDocument.Tokens d" d dict "[]"]
  by (simp add: normalized_def size_IndexedDocument_def)

lemma int_sum_list: "int (sum_list (map g xs)) = (\<Sum>x\<leftarrow>xs. int (g x))"
  by (induction xs) simp_all

lemma length_space_joined:
  "xs \<noteq> [] \<Longrightarrow> length (space_joined xs) + 1 = sum_list (map length xs) + length xs"
  by (induction xs rule: space_joined.induct) simp_all

lemma count_space_joined:
  "xs \<noteq> [] \<Longrightarrow> \<forall>x\<in>set xs. CHR '' '' \<notin> set x \<Longrightarrow>
   count_list (space_joined xs) CHR '' '' + 1 = length xs"
  by (induction xs rule: space_joined.induct) (simp_all add: count_list_append count_list_0_iff)

lemma built_getWord_0:
  assumes "built ws dict"
  shows "getWord dict 0 = ''UNKNOWN''"
proof -
  from assms have "dict_inv dict" by (rule built_inv)
  then have "(0::int) \<notin> fmdom' (Words dict)" by (simp add: dict_inv_def)
  then have "fmlookup (Words dict) 0 = None" by (rule fmdom'_notD)
  then show ?thesis by (simp add: getWord_def unknownWord_def)
qed

section \<open>Claims about indexing\<close>

text \<open>
  Claim C7. For every document and both modes, \<^verbatim>\<open>generateIndexedDocument\<close> returns as many
  indexed tokens as the document has tokens, and the \<open>i\<close>-th indexed token has the \<^verbatim>\<open>Index\<close>
  and the \<^verbatim>\<open>Line\<close> of the \<open>i\<close>-th input token. Its \<^verbatim>\<open>ID\<close> is, with \<^verbatim>\<open>addWords\<close> unset, the
  result of \<^verbatim>\<open>getIndex\<close> on the token's text in the classifier's dictionary; with \<^verbatim>\<open>addWords\<close>
  set, the result of \<^verbatim>\<open>add\<close> on the token's text in the dictionary obtained from the
  classifier's by adding the texts of the \<open>i\<close> tokens before it, in order. The dictionary
  left in the classifier is the one obtained by adding the texts of all tokens in grow
  mode, and the one it was in resolve mode. A document without tokens yields no indexed
  tokens; the function is total.
\<close>

theorem generateIndexedDocument_tokens:
  fixes E :: "('f, 's) collaborators"
  shows "length (IndexedDocument.Tokens (fst (generateIndexedDocument E c d addWords))) =
     length (document.Tokens d) \<and>
   (\<forall>i<length (document.Tokens d).
      indexedToken.Index (IndexedDocument.Tokens (fst (generateIndexedDocument E c d addWords)) ! i) =
        token.Index (document.Tokens d ! i) \<and>
      indexedToken.Line (IndexedDocument.Tokens (fst (generateIndexedDocument E c d addWords)) ! i) =
        token.Line (document.Tokens d ! i) \<and>
      ID (IndexedDocument.Tokens (fst (generateIndexedDocument E c d addWords)) ! i) =
        (if addWords
         then fst (add (fold (\<lambda>t D. snd (add D (Text t))) (take i (document.Tokens d)) (Dict c))
                (Text (document.Tokens d ! i)))
         else getIndex (Dict c) (Text (document.Tokens d ! i)))) \<and>
   Dict (snd (generateIndexedDocument E c d addWords)) =
     (if addWords then fold (\<lambda>t D. snd (add D (Text t))) (document.Tokens d) (Dict c)
      else Dict c) \<and>
   (document.Tokens d = [] \<longrightarrow>
      IndexedDocument.Tokens (fst (generateIndexedDocument E c d addWords)) = [])"
proof -
  let ?e = "\<lparr>IndexedDocument.Tokens = [], f = None, s = None, runes = [], norm = []\<rparr>
            :: ('f, 's) IndexedDocument"
  let ?ts = "document.Tokens d"
  let ?out = "IndexedDocument.Tokens (fst (generateIndexedDocument E c d addWords))"
  from loop_prefix [of addWords ?ts ?e "Dict c"]
  have len: "length ?out = length ?ts"
    by (auto simp: Tokens_generateIndexedDocument)
  have nth: "indexedToken.Index (?out ! i) = token.Index (?ts ! i) \<and>
      indexedToken.Line (?out ! i) = token.Line (?ts ! i) \<and>
      ID (?out ! i) =
        (if addWords
         then fst (add (fold (\<lambda>t D. snd (add D (Text t))) (take i ?ts) (Dict c))
                (Text (?ts ! i)))
         else getIndex (Dict c) (Text (?ts ! i)))" if "i < length ?ts" for i
    using loop_nth [OF that, of addWords ?e "Dict c"]
    by (cases addWords)
       (simp_all add: Tokens_generateIndexedDocument loop_grow_dict loop_resolve_dict Let_def)
  have dict: "Dict (snd (generateIndexedDocument E c d addWords)) =
     (if addWords then fold (\<lambda>t D. snd (add D (Text t))) ?ts (Dict c) else Dict c)"
    by (cases addWords)
       (simp_all add: Dict_generateIndexedDocument loop_grow_dict loop_resolve_dict)
  have e: "?ts = [] \<longrightarrow> ?out = []"
  proof
    assume "?ts = []"
    with len have "length ?out = 0" by simp
    then show "?out = []" by simp
  qed
  from len nth dict e show ?thesis by blast
qed

theorem generateIndexedDocument_tokens_witness:
  "generateIndexedDocument example_collaborators
     \<lparr>Dict = newDictionary, Q = 4, Docs = fmempty\<rparr>
     \<lparr>document.Tokens =
        [\<lparr>Text = ''a'', token.Index = 0, token.Line = 1, Previous = []\<rparr>,
         \<lparr>Text = ''b'', token.Index = 1, token.Line = 1, Previous = []\<rparr>,
         \<lparr>Text = ''a'', token.Index = 2, token.Line = 2, Previous = []\<rparr>]\<rparr> True =
   (\<lparr>IndexedDocument.Tokens =
        [\<lparr>indexedToken.Index = 0, Line = 1, ID = 1\<rparr>,
         \<lparr>indexedToken.Index = 1, Line = 1, ID = 2\<rparr>,
         \<lparr>indexedToken.Index = 2, Line = 2, ID = 1\<rparr>],
      f = Some [1, 2, 1], s = None, runes = [], norm = ''a b a''\<rparr>,
    \<lparr>Dict = \<lparr>Words = fmupd 2 ''b'' (fmupd 1 ''a'' fmempty),
              Indices = fmupd ''b'' 2 (fmupd ''a'' 1 fmempty)\<rparr>,
      Q = 4, Docs = fmempty\<rparr>) \<and>
   fst (generateIndexedDocument example_collaborators
     \<lparr>Dict = \<lparr>Words = fmupd 2 ''b'' (fmupd 1 ''a'' fmempty),
              Indices = fmupd ''b'' 2 (fmupd ''a'' 1 fmempty)\<rparr>,
      Q = 4, Docs = fmempty\<rparr>
     \<lparr>document.Tokens =
        [\<lparr>Text = ''a'', token.Index = 0, token.Line = 1, Previous = []\<rparr>,
         \<lparr>Text = ''c'', token.Index = 1, token.Line = 1, Previous = []\<rparr>]\<rparr> False) =
   \<lparr>IndexedDocument.Tokens =
        [\<lparr>indexedToken.Index = 0, Line = 1, ID = 1\<rparr>,
         \<lparr>indexedToken.Index = 1, Line = 1, ID = 0\<rparr>],
      f = Some [1, 0], s = None, runes = [], norm = ''a UNKNOWN''\<rparr>"
  using generateIndexedDocument_tokens [of example_collaborators
     "\<lparr>Dict = newDictionary, Q = 4, Docs = fmempty\<rparr>"
     "\<lparr>document.Tokens =
        [\<lparr>Text = ''a'', token.Index = 0, token.Line = 1, Previous = []\<rparr>,
         \<lparr>Text = ''b'', token.Index = 1, token.Line = 1, Previous = []\<rparr>,
         \<lparr>Text = ''a'', token.Index = 2, token.Line = 2, Previous = []\<rparr>]\<rparr>" True]
  by (simp add: index_eval)

text \<open>
  Claim C3. Indexing with \<^verbatim>\<open>addWords\<close> unset returns the classifier as it was, for every
  document and every dictionary: the dictionary, hence both of its maps and its size,
  and the map \<^verbatim>\<open>Docs\<close>, which does not receive the result. The same holds for
  \<^verbatim>\<open>createTargetIndexedDocument\<close>, whatever document the tokenizer returns.
\<close>

theorem resolve_mode_frame:
  "snd (generateIndexedDocument E c d False) = c \<and>
   Words (Dict (snd (generateIndexedDocument E c d False))) = Words (Dict c) \<and>
   Indices (Dict (snd (generateIndexedDocument E c d False))) = Indices (Dict c) \<and>
   len (Words (Dict (snd (generateIndexedDocument E c d False)))) = len (Words (Dict c)) \<and>
   len (Indices (Dict (snd (generateIndexedDocument E c d False)))) = len (Indices (Dict c)) \<and>
   Docs (snd (generateIndexedDocument E c d False)) = Docs c \<and>
   snd (createTargetIndexedDocument E c content) = c"
proof -
  have "snd (generateIndexedDocument E c d False) = c" for d
    by (simp add: generateIndexedDocument_def loop_resolve split_beta Let_def)
  then show ?thesis by (simp add: createTargetIndexedDocument_def Let_def)
qed

theorem resolve_mode_frame_witness:
  "snd (generateIndexedDocument example_collaborators
     \<lparr>Dict = \<lparr>Words = fmupd 2 ''b'' (fmupd 1 ''a'' fmempty),
              Indices = fmupd ''b'' 2 (fmupd ''a'' 1 fmempty)\<rparr>,
      Q = 4, Docs = fmempty\<rparr>
     \<lparr>document.Tokens =
        [\<lparr>Text = ''a'', token.Index = 0, token.Line = 1, Previous = []\<rparr>,
         \<lparr>Text = ''c'', token.Index = 1, token.Line = 1, Previous = []\<rparr>]\<rparr> False) =
   \<lparr>Dict = \<lparr>Words = fmupd 2 ''b'' (fmupd 1 ''a'' fmempty),
            Indices = fmupd ''b'' 2 (fmupd ''a'' 1 fmempty)\<rparr>,
    Q = 4, Docs = fmempty\<rparr>"
  using resolve_mode_frame [of example_collaborators
     "\<lparr>Dict = \<lparr>Words = fmupd 2 ''b'' (fmupd 1 ''a'' fmempty),
              Indices = fmupd ''b'' 2 (fmupd ''a'' 1 fmempty)\<rparr>,
      Q = 4, Docs = fmempty\<rparr>"
     "\<lparr>document.Tokens =
        [\<lparr>Text = ''a'', token.Index = 0, token.Line = 1, Previous = []\<rparr>,
         \<lparr>Text = ''c'', token.Index = 1, token.Line = 1, Previous = []\<rparr>]\<rparr>"]
  by simp

text \<open>
  Claim C1 says that the document returned by \<^verbatim>\<open>generateIndexedDocument\<close> has neither a
  frequency table nor a search set. The function calls \<^verbatim>\<open>id.generateFrequencies()\<close> after
  its loop, in both modes, so the returned document has a frequency table: already for
  the empty document in resolve mode.
\<close>

theorem generateIndexedDocument_frequencies_counterexample:
  "f (fst (generateIndexedDocument example_collaborators
       \<lparr>Dict = newDictionary, Q = 4, Docs = fmempty\<rparr> \<lparr>document.Tokens = []\<rparr> False)) \<noteq> None \<and>
   f (fst (generateIndexedDocument example_collaborators
       \<lparr>Dict = newDictionary, Q = 4, Docs = fmempty\<rparr> \<lparr>document.Tokens = []\<rparr> False)) = Some [] \<and>
   f (fst (generateIndexedDocument example_collaborators
       \<lparr>Dict = newDictionary, Q = 4, Docs = fmempty\<rparr>
       \<lparr>document.Tokens = [\<lparr>Text = ''a'', token.Index = 0, token.Line = 1, Previous = []\<rparr>]\<rparr>
       True)) = Some [1]"
  by (simp add: index_eval)

text \<open>
  Claim C1, amended. For every document and both modes, the document returned by
  \<^verbatim>\<open>generateIndexedDocument\<close> has the frequency table of its token identifiers attached
  and no search set; the search set is attached by a separate call of
  \<^verbatim>\<open>generateSearchSet\<close>.
\<close>

theorem generateIndexedDocument_artifacts:
  fixes E :: "('f, 's) collaborators"
  shows "f (fst (generateIndexedDocument E c d addWords)) =
     Some (newFrequencies E
       (map ID (IndexedDocument.Tokens (fst (generateIndexedDocument E c d addWords))))) \<and>
   s (fst (generateIndexedDocument E c d addWords)) = None \<and>
   s (generateSearchSet E (fst (generateIndexedDocument E c d addWords)) q) =
     Some (newSearchSet E (fst (generateIndexedDocument E c d addWords)) q)"
  using loop_frame [of addWords "document.Tokens d"
      "\<lparr>IndexedDocument.Tokens = [], f = None, s = None, runes = [], norm = []\<rparr>
         :: ('f, 's) IndexedDocument" "Dict c"]
  by (simp add: generateIndexedDocument_def generateFrequencies_def generateSearchSet_def
      split_beta Let_def)

text \<open>
  Claim C8. \<^verbatim>\<open>normalized\<close> returns the space-joined concatenation of the dictionary
  words of the tokens' identifiers, in token order. Hence:
  \<^item> it is the empty string for a document without tokens;
  \<^item> for a document with \<open>n > 0\<close> tokens its length is the total length of the words plus
    \<open>n - 1\<close>, one separator between two neighbours, and when no word contains a space
    it has exactly \<open>n - 1\<close> spaces;
  \<^item> over a dictionary built by \<^verbatim>\<open>add\<close>, the identifier \<open>0\<close> is rendered as \<^verbatim>\<open>UNKNOWN\<close>;
  \<^item> it depends on the token sequence and the dictionary only: two documents with the
    same tokens have the same normalized text.
\<close>

theorem normalized_space_joined:
  fixes d :: "('f, 's) IndexedDocument" and d' :: "('g, 't) IndexedDocument"
  shows
  "normalized dict d =
     space_joined (map (\<lambda>t. getWord dict (ID t)) (IndexedDocument.Tokens d)) \<and>
   (IndexedDocument.Tokens d = [] \<longrightarrow> normalized dict d = []) \<and>
   (IndexedDocument.Tokens d \<noteq> [] \<longrightarrow>
      int (length (normalized dict d)) =
        (\<Sum>t\<leftarrow>IndexedDocument.Tokens d. int (length (getWord dict (ID t)))) +
        (size_IndexedDocument d - 1)) \<and>
   (IndexedDocument.Tokens d \<noteq> [] \<and>
    (\<forall>t\<in>set (IndexedDocument.Tokens d). CHR '' '' \<notin> set (getWord dict (ID t))) \<longrightarrow>
      int (count_list (normalized dict d) CHR '' '') = size_IndexedDocument d - 1) \<and>
   (built ws dict \<longrightarrow>
      normalized dict d =
        space_joined (map (\<lambda>t. if ID t = 0 then ''UNKNOWN'' else getWord dict (ID t))
          (IndexedDocument.Tokens d))) \<and>
   (IndexedDocument.Tokens d' = IndexedDocument.Tokens d \<longrightarrow>
      normalized dict d' = normalized dict d)"
proof -
  let ?words = "map (\<lambda>t. getWord dict (ID t)) (IndexedDocument.Tokens d)"
  have j: "normalized dict d = space_joined ?words"
    by (rule normalized_joined)
  have e: "IndexedDocument.Tokens d = [] \<longrightarrow> normalized dict d = []"
    by (simp add: j)
  have l: "int (length (normalized dict d)) =
        (\<Sum>t\<leftarrow>IndexedDocument.Tokens d. int (length (getWord dict (ID t)))) +
        (size_IndexedDocument d - 1)" if ne: "IndexedDocument.Tokens d \<noteq> []"
  proof -
    from ne have "?words \<noteq> []" by simp
    from length_space_joined [OF this]
    have "length (space_joined ?words) + 1 = sum_list (map length ?words) + length ?words" .
    then have "int (length (space_joined ?words)) + 1 =
               int (sum_list (map length ?words)) + int (length ?words)"
      by linarith
    moreover have "int (sum_list (map length ?words)) =
        (\<Sum>t\<leftarrow>IndexedDocument.Tokens d. int (length (getWord dict (ID t))))"
      using int_sum_list [of length ?words] by (simp add: comp_def)
    ultimately show ?thesis by (simp add: j size_IndexedDocument_def)
  qed
  have c: "int (count_list (normalized dict d) CHR '' '') = size_IndexedDocument d - 1"
    if ne: "IndexedDocument.Tokens d \<noteq> []"
      and nosp: "\<forall>t\<in>set (IndexedDocument.Tokens d). CHR '' '' \<notin> set (getWord dict (ID t))"
  proof -
    from ne have "?words \<noteq> []" by simp
    moreover from nosp have "\<forall>x\<in>set ?words. CHR '' '' \<notin> set x" by simp
    ultimately have "count_list (space_joined ?words) CHR '' '' + 1 = length ?words"
      by (rule count_space_joined)
    then show ?thesis by (simp add: j size_IndexedDocument_def)
  qed
  have u: "normalized dict d =
        space_joined (map (\<lambda>t. if ID t = 0 then ''UNKNOWN'' else getWord dict (ID t))
          (IndexedDocument.Tokens d))" if "built ws dict"
  proof -
    from built_getWord_0 [OF that]
    have "map (\<lambda>t. getWord dict (ID t)) (IndexedDocument.Tokens d) =
          map (\<lambda>t. if ID t = 0 then ''UNKNOWN'' else getWord dict (ID t))
            (IndexedDocument.Tokens d)"
      by (intro map_cong) auto
    then show ?thesis unfolding j by (rule arg_cong)
  qed
  have s: "IndexedDocument.Tokens d' = IndexedDocument.Tokens d \<longrightarrow>
      normalized dict d' = normalized dict d"
    by (simp add: normalized_joined)
  from j e l c u s show ?thesis by blast
qed

theorem normalized_space_joined_witness:
  "built [''a'', ''b''] (snd (add (snd (add newDictionary ''a'')) ''b'')) \<and>
   normalized (snd (add (snd (add newDictionary ''a'')) ''b''))
     (\<lparr>IndexedDocument.Tokens =
        [\<lparr>indexedToken.Index = 0, Line = 1, ID = 1\<rparr>,
         \<lparr>indexedToken.Index = 1, Line = 1, ID = 0\<rparr>,
         \<lparr>indexedToken.Index = 2, Line = 2, ID = 2\<rparr>],
      f = None, s = None, runes = [], norm = []\<rparr> :: (unit, unit) IndexedDocument) =
     ''a UNKNOWN b'' \<and>
   count_list (normalized (snd (add (snd (add newDictionary ''a'')) ''b''))
     (\<lparr>IndexedDocument.Tokens =
        [\<lparr>indexedToken.Index = 0, Line = 1, ID = 1\<rparr>,
         \<lparr>indexedToken.Index = 1, Line = 1, ID = 0\<rparr>,
         \<lparr>indexedToken.Index = 2, Line = 2, ID = 2\<rparr>],
      f = None, s = None, runes = [], norm = []\<rparr> :: (unit, unit) IndexedDocument)) CHR '' '' = 2 \<and>
   normalized (snd (add (snd (add newDictionary ''a'')) ''b''))
     (\<lparr>IndexedDocument.Tokens = [], f = None, s = None, runes = [], norm = []\<rparr>
        :: (unit, unit) IndexedDocument) = []"
proof -
  let ?dict = "snd (add (snd (add newDictionary ''a'')) ''b'')"
  let ?d = "\<lparr>IndexedDocument.Tokens =
        [\<lparr>indexedToken.Index = 0, Line = 1, ID = 1\<rparr>,
         \<lparr>indexedToken.Index = 1, Line = 1, ID = 0\<rparr>,
         \<lparr>indexedToken.Index = 2, Line = 2, ID = 2\<rparr>],
      f = None, s = None, runes = [], norm = []\<rparr> :: (unit, unit) IndexedDocument"
  have b: "built [''a'', ''b''] ?dict"
    using built_add [OF built_add [OF built_new, of "''a''"], of "''b''"] by simp
  have ne: "IndexedDocument.Tokens ?d \<noteq> []" by simp
  have nosp: "\<forall>t\<in>set (IndexedDocument.Tokens ?d). CHR '' '' \<notin> set (getWord ?dict (ID t))"
    by (simp add: dict_eval)
  from normalized_space_joined [of ?dict ?d "[''a'', ''b'']" ?d] b ne nosp
  show ?thesis by (simp add: index_eval)
qed

lemma addDocument_result:
  fixes E :: "('f, 's) collaborators"
  shows "\<exists>entry.
     addDocument E c category name variant doc =
       Inr ((snd (generateIndexedDocument E c doc True))
              \<lparr>Docs := fmupd (generateDocName E category name variant) entry (Docs c)\<rparr>) \<and>
     IndexedDocument.Tokens entry =
       IndexedDocument.Tokens (fst (generateIndexedDocument E c doc True)) \<and>
     (\<exists>sset. s entry = Some sset \<and> origin sset = generateDocName E category name variant)"
proof -
  have D: "Docs (snd (generateIndexedDocument E c doc True)) = Docs c"
    by (simp add: generateIndexedDocument_def split_beta Let_def)
  have Q: "Q (snd (generateIndexedDocument E c doc True)) = Q c"
    by (simp add: generateIndexedDocument_def split_beta Let_def)
  let ?i1 = "generateFrequencies E (fst (generateIndexedDocument E c doc True))"
  let ?entry = "?i1\<lparr>s := Some ((newSearchSet E ?i1 (Q c))
                  \<lparr>origin := generateDocName E category name variant\<rparr>)\<rparr>"
  have "addDocument E c category name variant doc =
       Inr ((snd (generateIndexedDocument E c doc True))
              \<lparr>Docs := fmupd (generateDocName E category name variant) ?entry (Docs c)\<rparr>)"
    by (simp add: addDocument_def D Q generateSearchSet_def split_beta Let_def)
  moreover have "IndexedDocument.Tokens ?entry =
       IndexedDocument.Tokens (fst (generateIndexedDocument E c doc True))"
    by (simp add: generateFrequencies_def)
  moreover have "\<exists>sset. s ?entry = Some sset \<and>
       origin sset = generateDocName E category name variant"
    by simp
  ultimately show ?thesis by blast
qed

lemma addDocument_twice:
  fixes E :: "('f, 's) collaborators"
  shows "\<exists>c1 entry1 c2 entry2.
     addDocument E c category name variant doc1 = Inr c1 \<and>
     getIndexedDocument E c1 category name variant = Some entry1 \<and>
     IndexedDocument.Tokens entry1 =
       IndexedDocument.Tokens (fst (generateIndexedDocument E c doc1 True)) \<and>
     Dict c1 = Dict (snd (generateIndexedDocument E c doc1 True)) \<and>
     addDocument E c1 category name variant doc2 = Inr c2 \<and>
     getIndexedDocument E c2 category name variant = Some entry2 \<and>
     IndexedDocument.Tokens entry2 =
       IndexedDocument.Tokens (fst (generateIndexedDocument E c1 doc2 True)) \<and>
     Docs c2 = fmupd (generateDocName E category name variant) entry2 (Docs c)"
proof -
  let ?key = "generateDocName E category name variant"
  from addDocument_result [of E c category name variant doc1] obtain entry1 where
    a1: "addDocument E c category name variant doc1 =
       Inr ((snd (generateIndexedDocument E c doc1 True))\<lparr>Docs := fmupd ?key entry1 (Docs c)\<rparr>)"
    and t1: "IndexedDocument.Tokens entry1 =
       IndexedDocument.Tokens (fst (generateIndexedDocument E c doc1 True))"
    by blast
  let ?c1 = "(snd (generateIndexedDocument E c doc1 True))\<lparr>Docs := fmupd ?key entry1 (Docs c)\<rparr>"
  from addDocument_result [of E ?c1 category name variant doc2] obtain entry2 where
    a2: "addDocument E ?c1 category name variant doc2 =
       Inr ((snd (generateIndexedDocument E ?c1 doc2 True))\<lparr>Docs := fmupd ?key entry2 (Docs ?c1)\<rparr>)"
    and t2: "IndexedDocument.Tokens entry2 =
       IndexedDocument.Tokens (fst (generateIndexedDocument E ?c1 doc2 True))"
    by blast
  let ?c2 = "(snd (generateIndexedDocument E ?c1 doc2 True))\<lparr>Docs := fmupd ?key entry2 (Docs ?c1)\<rparr>"
  have l1: "getIndexedDocument E ?c1 category name variant = Some entry1"
    by (simp add: getIndexedDocument_def)
  have l2: "getIndexedDocument E ?c2 category name variant = Some entry2"
    by (simp add: getIndexedDocument_def)
  have d1: "Dict ?c1 = Dict (snd (generateIndexedDocument E c doc1 True))"
    by simp
  have r: "Docs ?c2 = fmupd ?key entry2 (Docs c)"
    by simp
  from a1 l1 t1 d1 a2 l2 t2 r show ?thesis by blast
qed

section \<open>Claims about the registry\<close>

text \<open>
  Claim C9. \<^verbatim>\<open>addDocument\<close> never panics. After it, \<^verbatim>\<open>getIndexedDocument\<close> with the same
  category, name and variant returns a document whose tokens are those of indexing the
  input in grow mode against the classifier's dictionary, which is left as that indexing
  leaves it. A second \<^verbatim>\<open>addDocument\<close> with the same triple replaces the entry: the lookup
  returns the second document, and \<^verbatim>\<open>Docs\<close> is the map before the first call with the
  second document stored under the key, so nothing of the first entry remains.
\<close>

theorem addDocument_lookup:
  fixes E :: "('f, 's) collaborators"
  shows "\<exists>c1 entry1 c2 entry2.
     addDocument E c category name variant doc1 = Inr c1 \<and>
     getIndexedDocument E c1 category name variant = Some entry1 \<and>
     IndexedDocument.Tokens entry1 =
       IndexedDocument.Tokens (fst (generateIndexedDocument E c doc1 True)) \<and>
     Dict c1 = Dict (snd (generateIndexedDocument E c doc1 True)) \<and>
     addDocument E c1 category name variant doc2 = Inr c2 \<and>
     getIndexedDocument E c2 category name variant = Some entry2 \<and>
     IndexedDocument.Tokens entry2 =
       IndexedDocument.Tokens (fst (generateIndexedDocument E c1 doc2 True)) \<and>
     Docs c2 = fmupd (generateDocName E category name variant) entry2 (Docs c)"
  by (rule addDocument_twice)

theorem addDocument_lookup_witness:
  "addDocument example_collaborators \<lparr>Dict = newDictionary, Q = 4, Docs = fmempty\<rparr>
     ''lic'' ''mit'' []
     \<lparr>document.Tokens =
        [\<lparr>Text = ''a'', token.Index = 0, token.Line = 1, Previous = []\<rparr>,
         \<lparr>Text = ''b'', token.Index = 1, token.Line = 1, Previous = []\<rparr>,
         \<lparr>Text = ''a'', token.Index = 2, token.Line = 1, Previous = []\<rparr>]\<rparr> =
   Inr \<lparr>Dict = \<lparr>Words = fmupd 2 ''b'' (fmupd 1 ''a'' fmempty),
                 Indices = fmupd ''b'' 2 (fmupd ''a'' 1 fmempty)\<rparr>,
        Q = 4,
        Docs = fmupd ''lic/mit/''
          \<lparr>IndexedDocument.Tokens =
             [\<lparr>indexedToken.Index = 0, Line = 1, ID = 1\<rparr>,
              \<lparr>indexedToken.Index = 1, Line = 1, ID = 2\<rparr>,
              \<lparr>indexedToken.Index = 2, Line = 1, ID = 1\<rparr>],
           f = Some [1, 2, 1], s = Some \<lparr>origin = ''lic/mit/''\<rparr>, runes = [],
           norm = ''a b a''\<rparr> fmempty\<rparr> \<and>
   getIndexedDocument example_collaborators
     \<lparr>Dict = \<lparr>Words = fmupd 2 ''b'' (fmupd 1 ''a'' fmempty),
              Indices = fmupd ''b'' 2 (fmupd ''a'' 1 fmempty)\<rparr>,
      Q = 4,
      Docs = fmupd ''lic/mit/''
          \<lparr>IndexedDocument.Tokens =
             [\<lparr>indexedToken.Index = 0, Line = 1, ID = 1\<rparr>,
              \<lparr>indexedToken.Index = 1, Line = 1, ID = 2\<rparr>,
              \<lparr>indexedToken.Index = 2, Line = 1, ID = 1\<rparr>],
           f = Some [1, 2, 1], s = Some \<lparr>origin = ''lic/mit/''\<rparr>, runes = [],
           norm = ''a b a''\<rparr> fmempty\<rparr>
     ''lic'' ''mit'' [] =
   Some \<lparr>IndexedDocument.Tokens =
             [\<lparr>indexedToken.Index = 0, Line = 1, ID = 1\<rparr>,
              \<lparr>indexedToken.Index = 1, Line = 1, ID = 2\<rparr>,
              \<lparr>indexedToken.Index = 2, Line = 1, ID = 1\<rparr>],
           f = Some [1, 2, 1], s = Some \<lparr>origin = ''lic/mit/''\<rparr>, runes = [],
           norm = ''a b a''\<rparr>"
  using addDocument_lookup [of example_collaborators
     "\<lparr>Dict = newDictionary, Q = 4, Docs = fmempty\<rparr>" "''lic''" "''mit''" "[]"]
  by (simp add: addDocument_def getIndexedDocument_def generateDocName_def index_eval)

text \<open>
  Claim C10. \<^verbatim>\<open>generateDocName\<close> is not injective: with \<open>/\<close> standing for the path
  separator, the distinct triples \<open>(a/b, c, d)\<close> and \<open>(a, b/c, d)\<close> have the same key. So
  \<^verbatim>\<open>addDocument\<close> under the second triple, after one under the first, leaves a single
  entry, and \<^verbatim>\<open>getIndexedDocument\<close> returns the second document for both triples.
\<close>

theorem generateDocName_not_injective:
  fixes E :: "('f, 's) collaborators"
  shows "generateDocName E (''a'' @ [PathSeparator E] @ ''b'') ''c'' ''d'' =
         generateDocName E ''a'' (''b'' @ [PathSeparator E] @ ''c'') ''d'' \<and>
   (''a'' @ [PathSeparator E] @ ''b'', ''c'', ''d'') \<noteq>
     (''a'', ''b'' @ [PathSeparator E] @ ''c'', ''d'') \<and>
   \<not> inj (\<lambda>(category, name, variant). generateDocName E category name variant) \<and>
   (\<exists>c1 c2 entry2.
      addDocument E c (''a'' @ [PathSeparator E] @ ''b'') ''c'' ''d'' doc1 = Inr c1 \<and>
      addDocument E c1 ''a'' (''b'' @ [PathSeparator E] @ ''c'') ''d'' doc2 = Inr c2 \<and>
      getIndexedDocument E c2 (''a'' @ [PathSeparator E] @ ''b'') ''c'' ''d'' = Some entry2 \<and>
      getIndexedDocument E c2 ''a'' (''b'' @ [PathSeparator E] @ ''c'') ''d'' = Some entry2 \<and>
      IndexedDocument.Tokens entry2 =
        IndexedDocument.Tokens (fst (generateIndexedDocument E c1 doc2 True)) \<and>
      Docs c2 = fmupd (generateDocName E ''a'' (''b'' @ [PathSeparator E] @ ''c'') ''d'') entry2 (Docs c))"
proof -
  let ?t1 = "(''a'' @ [PathSeparator E] @ ''b'', ''c'', ''d'')"
  let ?t2 = "(''a'', ''b'' @ [PathSeparator E] @ ''c'', ''d'')"
  let ?g = "\<lambda>(category, name, variant). generateDocName E category name variant"
  have same: "generateDocName E (''a'' @ [PathSeparator E] @ ''b'') ''c'' ''d'' =
         generateDocName E ''a'' (''b'' @ [PathSeparator E] @ ''c'') ''d''"
    by (simp add: generateDocName_def)
  have diff: "?t1 \<noteq> ?t2" by simp
  have ninj: "\<not> inj ?g"
  proof
    assume "inj ?g"
    moreover from same have "?g ?t1 = ?g ?t2" by simp
    ultimately have "?t1 = ?t2" by (rule injD)
    with diff show False by contradiction
  qed
  from addDocument_twice [of E c "''a''" "''b'' @ [PathSeparator E] @ ''c''" "''d''" doc1 doc2]
  obtain c1 c2 entry2 where
     "addDocument E c ''a'' (''b'' @ [PathSeparator E] @ ''c'') ''d'' doc1 = Inr c1"
     "addDocument E c1 ''a'' (''b'' @ [PathSeparator E] @ ''c'') ''d'' doc2 = Inr c2"
     "getIndexedDocument E c2 ''a'' (''b'' @ [PathSeparator E] @ ''c'') ''d'' = Some entry2"
     "IndexedDocument.Tokens entry2 =
        IndexedDocument.Tokens (fst (generateIndexedDocument E c1 doc2 True))"
     "Docs c2 = fmupd (generateDocName E ''a'' (''b'' @ [PathSeparator E] @ ''c'') ''d'') entry2 (Docs c)"
    by blast
  moreover have "addDocument E c (''a'' @ [PathSeparator E] @ ''b'') ''c'' ''d'' doc1 =
                 addDocument E c ''a'' (''b'' @ [PathSeparator E] @ ''c'') ''d'' doc1"
    by (simp only: addDocument_def same)
  moreover have "getIndexedDocument E c2 (''a'' @ [PathSeparator E] @ ''b'') ''c'' ''d'' =
                 getIndexedDocument E c2 ''a'' (''b'' @ [PathSeparator E] @ ''c'') ''d''"
    by (simp only: getIndexedDocument_def same)
  ultimately have "\<exists>c1 c2 entry2.
      addDocument E c (''a'' @ [PathSeparator E] @ ''b'') ''c'' ''d'' doc1 = Inr c1 \<and>
      addDocument E c1 ''a'' (''b'' @ [PathSeparator E] @ ''c'') ''d'' doc2 = Inr c2 \<and>
      getIndexedDocument E c2 (''a'' @ [PathSeparator E] @ ''b'') ''c'' ''d'' = Some entry2 \<and>
      getIndexedDocument E c2 ''a'' (''b'' @ [PathSeparator E] @ ''c'') ''d'' = Some entry2 \<and>
      IndexedDocument.Tokens entry2 =
        IndexedDocument.Tokens (fst (generateIndexedDocument E c1 doc2 True)) \<and>
      Docs c2 = fmupd (generateDocName E ''a'' (''b'' @ [PathSeparator E] @ ''c'') ''d'') entry2 (Docs c)"
    by auto
  with same diff ninj show ?thesis by blast
qed

theorem generateDocName_not_injective_witness:
  "generateDocName example_collaborators ''a/b'' ''c'' ''d'' = ''a/b/c/d'' \<and>
   generateDocName example_collaborators ''a'' ''b/c'' ''d'' = ''a/b/c/d''"
  using generateDocName_not_injective [of example_collaborators]
  by (simp add: generateDocName_def example_collaborators_def)

section \<open>Properties of rounding to \<^verbatim>\<open>float64\<close>\<close>

lemma floor_log2_log:
  "0 < x \<Longrightarrow> floor_log2 x = \<lfloor>log 2 x\<rfloor>"
proof (induction x rule: floor_log2.induct)
  case (1 x)
  show ?case
  proof (cases "x < 1")
    case True
    have "log 2 (2 * x) = 1 + log 2 x" using "1.prems" by (simp add: log_mult)
    then have "\<lfloor>log 2 (2 * x)\<rfloor> = \<lfloor>log 2 x\<rfloor> + 1" by simp
    with "1.IH"(1) "1.prems" True show ?thesis
      by (subst floor_log2.simps) simp
  next
    case False
    show ?thesis
    proof (cases "2 \<le> x")
      case True
      have "log 2 (x / 2) = log 2 x - 1" using "1.prems" by (simp add: log_divide)
      then have "\<lfloor>log 2 (x / 2)\<rfloor> = \<lfloor>log 2 x\<rfloor> - 1" by simp
      with "1.IH"(2) "1.prems" False True show ?thesis
        by (subst floor_log2.simps) simp
    next
      case nt: False
      from False nt have "0 \<le> log 2 x" "log 2 x < 1"
        using "1.prems" by (simp_all add: log_less_iff)
      then have "\<lfloor>log 2 x\<rfloor> = 0" by (simp add: floor_eq_iff)
      with False nt "1.prems" show ?thesis
        by (subst floor_log2.simps) simp
    qed
  qed
qed

lemma rhe_bounds: "of_int (round_half_even y) - 1 / 2 \<le> y \<and> y \<le> of_int (round_half_even y) + 1 / 2"
  unfolding round_half_even_def Let_def by (auto; linarith)

lemma rhe_of_int: "round_half_even (of_int n) = n"
  by (simp add: round_half_even_def)

lemma rhe_ge: "of_int n \<le> y \<Longrightarrow> n \<le> round_half_even y"
  unfolding round_half_even_def Let_def by (auto simp: le_floor_iff; linarith)

lemma rhe_le: "y \<le> of_int n \<Longrightarrow> round_half_even y \<le> n"
  using rhe_bounds [of y] by linarith

lemma rhe_lt: "y < of_int n - 1 / 2 \<Longrightarrow> round_half_even y < n"
  using rhe_bounds [of y] by linarith

lemma powr2_int: "2 powr (of_int k) = (2::real) powi k"
  by (simp add: powr_real_of_int')

lemma powr2_int_Suc: "2 powr (of_int k + 1) = (2::real) powi (k + 1)"
  using powr_real_of_int' [of "2::real" "k + 1"] by simp

lemma floor_log2_iff:
  assumes "0 < x"
  shows "\<lfloor>log 2 x\<rfloor> = k \<longleftrightarrow> 2 powi k \<le> x \<and> x < 2 powi (k + 1)"
  using floor_log_eq_powr_iff [of x 2 k] assms
  by (simp only: powr2_int powr2_int_Suc)

lemma floor_log2_eq:
  assumes "0 < x" "2 powi k \<le> x" "x < 2 powi (k + 1)"
  shows "\<lfloor>log 2 x\<rfloor> = k"
  using assms by (simp add: floor_log2_iff)

lemma floor_log2_bounds:
  assumes "0 < x"
  shows "2 powi \<lfloor>log 2 x\<rfloor> \<le> x" and "x < 2 powi (\<lfloor>log 2 x\<rfloor> + 1)"
  using floor_log2_iff [OF assms, of "\<lfloor>log 2 x\<rfloor>"] by simp_all

lemma ulp_exponent_log:
  "0 < x \<Longrightarrow> ulp_exponent x = max (\<lfloor>log 2 x\<rfloor> - 52) (- 1074)"
  by (simp add: ulp_exponent_def floor_log2_log)

lemma powi2_less_iff: "(2::real) powi a < 2 powi b \<longleftrightarrow> a < b"
  by (metis linorder_not_less nle_le one_less_numeral_iff power_int_increasing power_int_strict_increasing semiring_norm(76) order_less_imp_le)

lemma powi2_le_iff: "(2::real) powi a \<le> 2 powi b \<longleftrightarrow> a \<le> b"
  using powi2_less_iff [of b a] by linarith

lemma ulp_exponent_pos:
  assumes "0 < x" "2 powi k \<le> x" "x < 2 powi (k + 1)"
  shows "ulp_exponent x = max (k - 52) (- 1074)"
  using floor_log2_eq [OF assms] assms(1) by (simp add: ulp_exponent_log)

lemma round64_exact:
  fixes m :: int
  assumes m: "0 < m" "m < 2 ^ 53" and p: "- 1074 \<le> p"
    and fin: "of_int m * 2 powi p < (2::real) ^ 1024"
  shows "round64 (of_int m * 2 powi p) = Some (of_int m * 2 powi p)"
proof -
  let ?x = "of_int m * 2 powi p :: real"
  let ?L = "\<lfloor>log 2 ?x\<rfloor>"
  let ?e = "ulp_exponent ?x"
  have pos: "0 < ?x" using m by simp
  have "of_int m < (2::real) ^ 53" using m(2) by (metis of_int_less_numeral_power_cancel_iff)
  then have "?x < 2 ^ 53 * 2 powi p" by simp
  also have "\<dots> = 2 powi (53 + p)" by (simp add: power_int_add)
  finally have "?x < 2 powi (53 + p)" .
  with floor_log2_bounds(1) [OF pos] have "(2::real) powi ?L < 2 powi (53 + p)" by linarith
  then have L: "?L < 53 + p" by (simp only: powi2_less_iff)
  have e: "?e \<le> p" using L p pos by (simp add: ulp_exponent_log)
  have split: "(2::real) powi p = 2 ^ nat (p - ?e) * 2 powi ?e"
    using e by (simp add: power_int_add [symmetric] flip: power_int_of_nat)
  have "?x / 2 powi ?e = of_int (m * 2 ^ nat (p - ?e))"
    by (subst split) simp
  then have r: "round_half_even (?x / 2 powi ?e) = m * 2 ^ nat (p - ?e)"
    by (simp only: rhe_of_int)
  have y: "of_int (round_half_even (?x / 2 powi ?e)) * 2 powi ?e = ?x"
    unfolding r by (subst (2) split) simp
  have "?x \<noteq> 0" using m(1) by simp
  then show ?thesis
    using fin pos unfolding round64_def Let_def y by simp
qed

lemma round64_unit_interval:
  assumes "0 < u" "u < 1"
  shows "\<exists>r. round64 u = Some r \<and> 0 \<le> r \<and> r \<le> 1"
proof -
  let ?L = "\<lfloor>log 2 u\<rfloor>"
  let ?e = "ulp_exponent u"
  let ?M = "round_half_even (u / 2 powi ?e)"
  from floor_log2_bounds(1) [OF assms(1)] assms(2) have "(2::real) powi ?L < 2 powi 0"
    by simp
  then have "?L < 0" by (simp only: powi2_less_iff)
  moreover have "?e = max (?L - 52) (- 1074)" using assms(1) by (rule ulp_exponent_log)
  ultimately have e: "?e < 0" by linarith
  define n where "n = nat (- ?e)"
  have pw: "(2::real) powi ?e = 1 / 2 ^ n"
  proof -
    have "?e = - int n" using e by (simp add: n_def)
    then show ?thesis by (simp add: power_int_minus_divide)
  qed
  have y: "u / 2 powi ?e = u * 2 ^ n" by (simp add: pw)
  have "u * 2 ^ n \<le> of_int (2 ^ n)" using assms by simp
  then have up: "?M \<le> 2 ^ n" unfolding y by (rule rhe_le)
  have "of_int 0 \<le> u * 2 ^ n" using assms by simp
  then have lo: "0 \<le> ?M" unfolding y by (rule rhe_ge)
  let ?r = "of_int ?M * 2 powi ?e :: real"
  have r1: "?r \<le> 1"
  proof -
    from up have "(of_int ?M :: real) \<le> of_int (2 ^ n)" by (simp only: of_int_le_iff)
    then have "(of_int ?M :: real) \<le> 2 ^ n" by simp
    then show ?thesis by (simp add: pw field_simps)
  qed
  have r0: "0 \<le> ?r" using lo by simp
  from r0 r1 have "\<bar>?r\<bar> < 2 ^ 1024" by simp
  then have "round64 u = Some ?r"
    using assms(1) unfolding round64_def Let_def by simp
  with r0 r1 show ?thesis by blast
qed

lemma round64_upper_half:
  assumes "1 / 2 \<le> x" "x < 1"
  shows "\<exists>r. round64 x = Some r \<and> 1 / 2 \<le> r \<and> r \<le> 1"
proof -
  have pos: "0 < x" using assms by simp
  have e: "ulp_exponent x = - 53"
    using ulp_exponent_pos [of x "- 1"] assms pos by (simp add: power_int_minus)
  let ?M = "round_half_even (x / 2 powi (- 53))"
  have y: "x / 2 powi (- 53) = x * 2 ^ 53" by (simp add: power_int_minus)
  have "of_int (2 ^ 52) \<le> x * 2 ^ 53" using assms by simp
  then have lo: "2 ^ 52 \<le> ?M" unfolding y by (rule rhe_ge)
  have "x * 2 ^ 53 \<le> of_int (2 ^ 53)" using assms by simp
  then have up: "?M \<le> 2 ^ 53" unfolding y by (rule rhe_le)
  let ?r = "of_int ?M * 2 powi (- 53) :: real"
  from lo have "of_int (2 ^ 52) \<le> (of_int ?M :: real)" by (simp only: of_int_le_iff)
  then have "(2::real) ^ 52 \<le> of_int ?M" by simp
  then have r0: "1 / 2 \<le> ?r" by (simp add: power_int_minus field_simps)
  from up have "(of_int ?M :: real) \<le> of_int (2 ^ 53)" by (simp only: of_int_le_iff)
  then have "of_int ?M \<le> (2::real) ^ 53" by simp
  then have r1: "?r \<le> 1" by (simp add: power_int_minus field_simps)
  from r0 r1 have "\<bar>?r\<bar> < 2 ^ 1024" by simp
  then have "round64 x = Some ?r"
    using pos e unfolding round64_def Let_def by simp
  with r0 r1 show ?thesis by blast
qed

lemma round64_keeps_floor:
  assumes u: "1 \<le> u" "u < 2 ^ 53"
    and gap: "2 powi (\<lfloor>log 2 u\<rfloor> - 53) < of_int (\<lfloor>u\<rfloor> + 1) - u"
  shows "\<exists>r. round64 u = Some r \<and> \<lfloor>r\<rfloor> = \<lfloor>u\<rfloor> \<and> 0 \<le> r"
proof -
  let ?L = "\<lfloor>log 2 u\<rfloor>"
  let ?n = "\<lfloor>u\<rfloor>"
  have pos: "0 < u" using u by simp
  from floor_log2_bounds(2) [OF pos] u(1) have "(2::real) powi 0 < 2 powi (?L + 1)" by simp
  then have "0 < ?L + 1" by (simp only: powi2_less_iff)
  then have L0: "0 \<le> ?L" by linarith
  from floor_log2_bounds(1) [OF pos] u(2) have "(2::real) powi ?L < 2 powi 53" by simp
  then have "?L < 53" by (simp only: powi2_less_iff)
  then have L52: "?L \<le> 52" by linarith
  have e: "ulp_exponent u = ?L - 52" using L0 pos by (simp add: ulp_exponent_log)
  define k where "k = nat (52 - ?L)"
  have pw: "(2::real) powi (?L - 52) = 1 / 2 ^ k"
  proof -
    have "?L - 52 = - int k" using L52 by (simp add: k_def)
    then show ?thesis by (simp add: power_int_minus_divide)
  qed
  have pw': "(2::real) powi (?L - 53) = 1 / (2 * 2 ^ k)"
  proof -
    have "?L - 53 = - int (Suc k)" using L52 by (simp add: k_def)
    then show ?thesis by (simp add: power_int_minus_divide del: of_nat_Suc)
  qed
  let ?M = "round_half_even (u / 2 powi (?L - 52))"
  have y: "u / 2 powi (?L - 52) = u * 2 ^ k" by (simp add: pw)
  have "of_int ?n * 2 ^ k \<le> u * 2 ^ k" by simp
  then have "of_int (?n * 2 ^ k) \<le> u * 2 ^ k" by simp
  then have lo: "?n * 2 ^ k \<le> ?M" unfolding y by (rule rhe_ge)
  from gap have "1 / (2 * 2 ^ k) < of_int (?n + 1) - u" by (simp only: pw')
  then have "1 / 2 < (of_int (?n + 1) - u) * 2 ^ k" by (simp add: field_simps)
  then have "u * 2 ^ k < of_int ((?n + 1) * 2 ^ k) - 1 / 2" by (simp add: algebra_simps)
  then have up: "?M < (?n + 1) * 2 ^ k" unfolding y by (rule rhe_lt)
  let ?r = "of_int ?M * 2 powi (?L - 52) :: real"
  have rq: "?r = of_int ?M / 2 ^ k" by (simp add: pw)
  from lo have "of_int (?n * 2 ^ k) \<le> (of_int ?M :: real)" by (simp only: of_int_le_iff)
  then have r_lo: "of_int ?n \<le> ?r" unfolding rq by (simp add: field_simps)
  from up have "(of_int ?M :: real) < of_int ((?n + 1) * 2 ^ k)" by (simp only: of_int_less_iff)
  then have r_up: "?r < of_int ?n + 1" unfolding rq by (simp add: field_simps)
  from r_lo r_up have fl: "\<lfloor>?r\<rfloor> = ?n" by (simp add: floor_eq_iff)
  have n1: "1 \<le> ?n" using u(1) by simp
  with r_lo have r0: "0 \<le> ?r" by linarith
  have "of_int ?n \<le> u" by simp
  with u(2) r_up have "?r < 2 ^ 53 + 1" by linarith
  with r0 have "\<bar>?r\<bar> < 2 ^ 1024" by simp
  then have "round64 u = Some ?r"
    using pos unfolding round64_def Let_def e by simp
  with fl r0 show ?thesis by blast
qed

lemma float64_upper_half_form:
  assumes "is_float64 t" "1 / 2 \<le> t" "t < 1"
  shows "\<exists>k::int. t = of_int k / 2 ^ 53 \<and> 2 ^ 52 \<le> k \<and> k < 2 ^ 53"
proof -
  have pos: "0 < t" using assms by simp
  have e: "ulp_exponent t = - 53"
    using ulp_exponent_pos [of t "- 1"] assms pos by (simp add: power_int_minus)
  let ?M = "round_half_even (t / 2 powi (- 53))"
  let ?y = "of_int ?M * 2 powi (- 53) :: real"
  have tz: "t \<noteq> 0" using pos by simp
  have "round64 t = (if \<bar>?y\<bar> < 2 ^ 1024 then Some ?y else None)"
    unfolding round64_def Let_def e by (simp only: tz if_False)
  moreover from assms(1) have "round64 t = Some t" by (simp only: is_float64_def)
  ultimately have "?y = t" by (metis option.inject option.distinct(1))
  then have t: "t = of_int ?M / 2 ^ 53" by (simp add: power_int_minus_divide)
  then have M: "(of_int ?M :: real) = t * 2 ^ 53" by simp
  from M assms(2) have "(of_int (2 ^ 52) :: real) \<le> of_int ?M" by simp
  then have lo: "2 ^ 52 \<le> ?M" by (simp only: of_int_le_iff)
  from M assms(3) have "(of_int ?M :: real) < of_int (2 ^ 53)" by simp
  then have up: "?M < 2 ^ 53" by (simp only: of_int_less_iff)
  from t lo up show ?thesis by blast
qed

lemma ratio_gap:
  fixes k j :: int
  assumes "0 < j" "j \<le> k" "k < 2 ^ 53"
  defines "u \<equiv> (of_int k / of_int j :: real)"
  shows "2 powi (\<lfloor>log 2 u\<rfloor> - 53) < of_int (\<lfloor>u\<rfloor> + 1) - u"
proof -
  let ?L = "\<lfloor>log 2 u\<rfloor>"
  let ?n = "\<lfloor>u\<rfloor>"
  have jr: "0 < (of_int j :: real)" using assms(1) by simp
  have u1: "1 \<le> u" using assms(1,2) by (simp add: u_def)
  then have pos: "0 < u" by simp
  have "(of_int k :: real) < of_int (2 ^ 53)" using assms(3) by (simp only: of_int_less_iff)
  then have kr: "(of_int k :: real) < 2 ^ 53" by simp
  have "(2::real) powi (?L - 53) = 2 powi ?L / 2 ^ 53"
    by (simp add: power_int_diff)
  also have "\<dots> \<le> u / 2 ^ 53"
    using floor_log2_bounds(1) [OF pos] by (simp add: divide_right_mono)
  also have "\<dots> < 1 / of_int j"
    using kr jr by (simp add: u_def field_simps)
  finally have left: "(2::real) powi (?L - 53) < 1 / of_int j" .
  have "u < of_int (?n + 1)" by simp
  then have "(of_int k :: real) < of_int ((?n + 1) * j)"
    using jr by (simp add: u_def field_simps)
  then have "k < (?n + 1) * j" by (simp only: of_int_less_iff)
  then have "1 \<le> (?n + 1) * j - k" by simp
  then have "(of_int 1 :: real) \<le> of_int ((?n + 1) * j - k)" by (simp only: of_int_le_iff)
  moreover have "(of_int (?n + 1) - u) * of_int j = (of_int ((?n + 1) * j - k) :: real)"
    using jr by (simp add: u_def left_diff_distrib)
  ultimately have "1 \<le> (of_int (?n + 1) - u) * of_int j"
    by simp
  then have "1 / of_int j \<le> of_int (?n + 1) - u"
    using jr by (simp add: field_simps)
  with left show ?thesis by linarith
qed

lemma max_int_eq: "max_int a b = max a b"
  by (simp add: max_int_def max_def)

lemma computeQ_upper_half:
  assumes "is_float64 t" "1 / 2 \<le> t" "t < 1"
  shows "computeQ t = Some (max 1 \<lfloor>t / (1 - t)\<rfloor>)"
proof -
  from float64_upper_half_form [OF assms] obtain k :: int where
    t: "t = of_int k / 2 ^ 53" and k: "2 ^ 52 \<le> k" "k < 2 ^ 53"
    by blast
  define j where "j = 2 ^ 53 - k"
  have j: "0 < j" "j \<le> k" "j < 2 ^ 53" using k by (simp_all add: j_def)
  have den: "1 - t = of_int j * 2 powi (- 53)"
    by (simp add: t j_def power_int_minus_divide field_simps)
  have "of_int j * 2 powi (- 53) < (2::real) ^ 1024"
    using assms(2,3) unfolding den [symmetric] by simp
  from round64_exact [OF j(1) j(3) _ this]
  have r1: "round64 (1 - t) = Some (1 - t)" unfolding den by simp
  have ne: "1 - t \<noteq> 0" using assms(3) by simp
  have jr: "(of_int j :: real) \<noteq> 0" using j(1) by simp
  have u: "t / (1 - t) = of_int k / of_int j"
    by (simp add: t j_def field_simps)
  have kr: "(of_int k :: real) < 2 ^ 53"
  proof -
    have "(of_int k :: real) < of_int (2 ^ 53)" using k(2) by (simp only: of_int_less_iff)
    then show ?thesis by simp
  qed
  have u1: "1 \<le> (of_int k / of_int j :: real)" using j by simp
  have "(of_int k / of_int j :: real) \<le> of_int k"
    using j(1) k(1) by (simp add: field_simps mult_le_cancel_left1)
  with kr have u53: "(of_int k / of_int j :: real) < 2 ^ 53" by linarith
  from round64_keeps_floor [OF u1 u53 ratio_gap [OF j(1) j(2) k(2)]]
  obtain r where r: "round64 (of_int k / of_int j) = Some r"
    and fl: "\<lfloor>r\<rfloor> = \<lfloor>of_int k / of_int j :: real\<rfloor>" and r0: "0 \<le> r"
    by blast
  have "\<lfloor>of_int k / of_int j :: real\<rfloor> \<le> \<lfloor>of_int k :: real\<rfloor>"
    using \<open>(of_int k / of_int j :: real) \<le> of_int k\<close> by (rule floor_mono)
  then have "\<lfloor>of_int k / of_int j :: real\<rfloor> \<le> k" by (simp only: floor_of_int)
  moreover have "(2::int) ^ 53 \<le> 2 ^ 63" by simp
  ultimately have range: "\<lfloor>of_int k / of_int j :: real\<rfloor> < 2 ^ 63"
    using k(2) by linarith
  have "1 \<le> \<lfloor>of_int k / of_int j :: real\<rfloor>" using u1 by simp
  with range fl r0 have conv: "int_of_float64 r = Some \<lfloor>of_int k / of_int j :: real\<rfloor>"
    by (simp add: int_of_float64_def)
  from assms(3) r1 ne r conv show ?thesis
    by (simp add: computeQ_def u max_int_eq)
qed

lemma computeQ_lower_half:
  assumes "0 < t" "t < 1 / 2"
  shows "computeQ t = Some 1" and "max 1 \<lfloor>t / (1 - t)\<rfloor> = 1"
proof -
  from round64_upper_half [of "1 - t"] assms obtain den where
    den: "round64 (1 - t) = Some den" "1 / 2 \<le> den" "den \<le> 1"
    by auto
  have "t / den \<le> t / (1 / 2)"
    using assms(1) den(2) by (intro divide_left_mono) simp_all
  with assms have u: "0 < t / den" "t / den < 1" using den(2) by simp_all
  from round64_unit_interval [OF u] obtain r where
    r: "round64 (t / den) = Some r" "0 \<le> r" "r \<le> 1"
    by blast
  have "map_option (max_int 1) (int_of_float64 r) = Some 1"
  proof (cases "r < 1")
    case True
    with r(2) have "\<lfloor>r\<rfloor> = 0" by (simp add: floor_eq_iff)
    with r(2) show ?thesis by (simp add: int_of_float64_def max_int_def)
  next
    case False
    with r(3) have "r = 1" by simp
    then show ?thesis by (simp add: int_of_float64_def max_int_def)
  qed
  with den r assms show "computeQ t = Some 1"
    by (simp add: computeQ_def)
  have "t / (1 - t) < 1" using assms by simp
  then have "\<lfloor>t / (1 - t)\<rfloor> \<le> 0" by (simp add: floor_le_iff)
  then show "max 1 \<lfloor>t / (1 - t)\<rfloor> = 1" by simp
qed

lemma computeQ_formula:
  assumes "is_float64 t" "0 < t" "t < 1"
  shows "computeQ t = Some (max 1 \<lfloor>t / (1 - t)\<rfloor>)"
proof (cases "t < 1 / 2")
  case True
  with assms(2) computeQ_lower_half [of t] show ?thesis by simp
next
  case False
  with assms computeQ_upper_half [of t] show ?thesis by simp
qed

lemma round64_eval:
  assumes "0 < x" "2 powi k \<le> x" "x < 2 powi (k + 1)"
    and "round_half_even (x / 2 powi (max (k - 52) (- 1074))) = M"
    and "\<bar>of_int M * 2 powi (max (k - 52) (- 1074))\<bar> < (2::real) ^ 1024"
  shows "round64 x = Some (of_int M * 2 powi (max (k - 52) (- 1074)))"
proof -
  have xz: "x \<noteq> 0" using assms(1) by simp
  have e: "ulp_exponent x = max (k - 52) (- 1074)"
    using assms(1-3) by (rule ulp_exponent_pos)
  show ?thesis
    unfolding round64_def Let_def e assms(4) using assms(5) by (simp only: xz if_False if_True)
qed

lemma is_float64_exact:
  fixes m :: int
  assumes "0 < m" "m < 2 ^ 53" "- 1074 \<le> p" "of_int m * 2 powi p < (2::real) ^ 1024"
  shows "is_float64 (of_int m * 2 powi p)"
  unfolding is_float64_def using assms by (rule round64_exact)

lemma round64_0_8: "round64 (8 / 10) = Some (3602879701896397 / 4503599627370496)"
proof -
  have "round64 (8 / 10) = Some (of_int 7205759403792794 * 2 powi (max (- 1 - 52) (- 1074)))"
  proof (rule round64_eval)
    show "round_half_even (8 / 10 / 2 powi max (- 1 - 52) (- 1074)) = 7205759403792794"
      by (simp add: round_half_even_def power_int_minus_divide)
  qed (simp_all add: power_int_minus_divide)
  then show ?thesis by (simp add: power_int_minus_divide)
qed

lemma round64_0_5: "round64 (5 / 10) = Some (1 / 2)"
  using round64_exact [of 1 "- 1"] by (simp add: power_int_minus_divide)

lemma round64_0_3: "round64 (3 / 10) = Some (5404319552844595 / 18014398509481984)"
proof -
  have "round64 (3 / 10) = Some (of_int 5404319552844595 * 2 powi (max (- 2 - 52) (- 1074)))"
  proof (rule round64_eval)
    show "round_half_even (3 / 10 / 2 powi max (- 2 - 52) (- 1074)) = 5404319552844595"
      by (simp add: round_half_even_def power_int_minus_divide)
  qed (simp_all add: power_int_minus_divide)
  then show ?thesis by (simp add: power_int_minus_divide)
qed

lemma is_float64_0_8: "is_float64 (3602879701896397 / 4503599627370496)"
  using is_float64_exact [of 3602879701896397 "- 52"] by (simp add: power_int_minus_divide)

lemma is_float64_0_3: "is_float64 (5404319552844595 / 18014398509481984)"
  using is_float64_exact [of 5404319552844595 "- 54"] by (simp add: power_int_minus_divide)

lemma is_float64_0_5: "is_float64 (1 / 2)"
  using is_float64_exact [of 1 "- 1"] by (simp add: power_int_minus_divide)

lemma computeQ_1: "computeQ 1 = Some 10"
  by (simp add: computeQ_def)

lemma computeQ_ge_1:
  assumes "is_float64 t" "0 < t" "t \<le> 1"
  shows "\<exists>q. computeQ t = Some q \<and> 1 \<le> q"
proof (cases "t = 1")
  case True
  then show ?thesis by (simp add: computeQ_1)
next
  case False
  with assms have "computeQ t = Some (max 1 \<lfloor>t / (1 - t)\<rfloor>)"
    by (intro computeQ_formula) simp_all
  then show ?thesis by simp
qed

section \<open>Claim about the threshold policy\<close>

text \<open>
  Claim C2. \<^verbatim>\<open>computeQ(1.0)\<close> is \<open>10\<close>. For every \<^verbatim>\<open>float64\<close> threshold \<open>t\<close> with \<open>0 < t < 1\<close>,
  \<^verbatim>\<open>computeQ(t)\<close> is \<open>max(1, floor(t / (1 - t)))\<close>, the right-hand side in exact arithmetic
  on the value of \<open>t\<close>: the two roundings of the code never move the quotient across an
  integer. On the \<^verbatim>\<open>float64\<close> values of the constants \<^verbatim>\<open>0.8\<close>, \<^verbatim>\<open>0.5\<close> and \<^verbatim>\<open>0.3\<close> the results are
  \<open>4\<close>, \<open>1\<close> and \<open>1\<close>. For every \<^verbatim>\<open>float64\<close> threshold in \<open>(0, 1]\<close> the function returns a
  number, and it is at least \<open>1\<close>.
\<close>

theorem computeQ_policy:
  "computeQ 1 = Some 10 \<and>
   (is_float64 t \<and> 0 < t \<and> t < 1 \<longrightarrow> computeQ t = Some (max 1 \<lfloor>t / (1 - t)\<rfloor>)) \<and>
   Option.bind (round64 (8 / 10)) computeQ = Some 4 \<and>
   Option.bind (round64 (5 / 10)) computeQ = Some 1 \<and>
   Option.bind (round64 (3 / 10)) computeQ = Some 1 \<and>
   (is_float64 t \<and> 0 < t \<and> t \<le> 1 \<longrightarrow> (\<exists>q. computeQ t = Some q \<and> 1 \<le> q))"
proof -
  have a: "Option.bind (round64 (8 / 10)) computeQ = Some 4"
    unfolding round64_0_8 using computeQ_formula [OF is_float64_0_8] by simp
  have b: "Option.bind (round64 (5 / 10)) computeQ = Some 1"
    unfolding round64_0_5 using computeQ_formula [OF is_float64_0_5] by simp
  have c: "Option.bind (round64 (3 / 10)) computeQ = Some 1"
    unfolding round64_0_3 using computeQ_formula [OF is_float64_0_3] by simp
  from a b c computeQ_1 computeQ_formula [of t] computeQ_ge_1 [of t] show ?thesis
    by blast
qed

theorem computeQ_policy_witness:
  "is_float64 (3 / 4) \<and> (0::real) < 3 / 4 \<and> (3 / 4 :: real) < 1 \<and> computeQ (3 / 4) = Some 3"
proof -
  have f: "is_float64 (3 / 4)"
    using is_float64_exact [of 3 "- 2"] by (simp add: power_int_minus_divide)
  from computeQ_policy [of "3 / 4"] f show ?thesis by simp
qed

end
